theory Spec2Isabelle
  imports Main
begin

section \<open>The board\<close>

text \<open>
  The puzzle of \<^verbatim>\<open>SudokuGame\<close> is a list of rows, each a list of Python integers;
  \<open>0\<close> marks an empty cell. Every index the solvers use is one of \<open>0..8\<close>, so the
  model reads and writes cells with \<open>!\<close> and list update, and the theorems below are
  stated for boards of nine rows of nine cells (\<open>grid9\<close>), where all these indices are
  in range.
\<close>

type_synonym grid = "int list list"
type_synonym cell = "nat \<times> nat"

definition grid9 :: "grid \<Rightarrow> bool" where
  "grid9 g \<longleftrightarrow> length g = 9 \<and> list_all (\<lambda>row. length row = 9) g"

text \<open>All coordinates, row by row: \<^verbatim>\<open>for row in range(9) for col in range(9)\<close>.\<close>

definition cells :: "cell list" where
  "cells = [(row, col). row \<leftarrow> [0..<9], col \<leftarrow> [0..<9]]"

definition val :: "grid \<Rightarrow> cell \<Rightarrow> int" where
  "val g p = g ! fst p ! snd p"

text \<open>The assignment \<^verbatim>\<open>self.puzzle[row][col] = v\<close>.\<close>

definition put :: "grid \<Rightarrow> nat \<Rightarrow> nat \<Rightarrow> int \<Rightarrow> grid" where
  "put g row col v = g[row := (g ! row)[col := v]]"

definition check_win :: "grid \<Rightarrow> bool" where
  "check_win g = list_all (\<lambda>row. \<not> list_ex (\<lambda>cell. cell = 0) row) g"

definition find_empty_cell :: "grid \<Rightarrow> cell option" where
  "find_empty_cell g = List.find (\<lambda>(i, j). g ! i ! j = 0) cells"

definition is_valid :: "grid \<Rightarrow> int \<Rightarrow> nat \<Rightarrow> nat \<Rightarrow> bool" where
  "is_valid g num row col =
     (if num \<in> set (g ! row) then False
      else if num \<in> set (map (\<lambda>i. g ! i ! col) [0..<9]) then False
      else (let start_row = 3 * (row div 3); start_col = 3 * (col div 3)
            in \<not> list_ex (\<lambda>i. list_ex (\<lambda>j. g ! (start_row + i) ! (start_col + j) = num) [0..<3])
                 [0..<3]))"

section \<open>Backtracking\<close>

text \<open>
  \<^verbatim>\<open>backtracking_solve\<close> mutates the board and returns a flag; the model returns the
  flag together with the board it leaves behind. The loop over \<^verbatim>\<open>range(1, 10)\<close> is
  \<open>try_values\<close>, which receives the recursive call as \<open>solve\<close> and threads the board
  through it: after a failed recursive call the loop goes on with the board that call
  left, with the cell written back to \<open>0\<close>. The recursion itself is \<open>bt\<close>, whose first
  argument bounds the depth of the recursion; \<open>None\<close> means the bound was reached.
\<close>

fun try_values ::
  "(grid \<Rightarrow> (bool \<times> grid) option) \<Rightarrow> grid \<Rightarrow> nat \<Rightarrow> nat \<Rightarrow> int list \<Rightarrow> (bool \<times> grid) option"
where
  "try_values solve g row col [] = Some (False, g)"
| "try_values solve g row col (num # nums) =
     (if is_valid g num row col then
        (case solve (put g row col num) of
           None \<Rightarrow> None
         | Some (True, g') \<Rightarrow> Some (True, g')
         | Some (False, g') \<Rightarrow> try_values solve (put g' row col 0) row col nums)
      else try_values solve g row col nums)"

fun bt :: "nat \<Rightarrow> grid \<Rightarrow> (bool \<times> grid) option" where
  "bt 0 g = None"
| "bt (Suc n) g =
     (case find_empty_cell g of
        None \<Rightarrow> Some (True, g)
      | Some (row, col) \<Rightarrow> try_values (bt n) g row col [1..9])"

text \<open>
  Each recursive call is made on a board with one more cell filled, so the depth never
  exceeds the number of empty cells plus one (\<open>bt_total\<close> below); the top-level call gets
  that much, and a larger bound gives the same result (\<open>bt_fuel_mono\<close>).
\<close>

definition empties :: "grid \<Rightarrow> nat" where
  "empties g = length (filter (\<lambda>p. val g p = 0) cells)"

definition backtracking_solve :: "grid \<Rightarrow> (bool \<times> grid) option" where
  "backtracking_solve g = bt (Suc (empties g)) g"


section \<open>What a solved board is\<close>

text \<open>
  Two cells constrain each other when they lie in the same row, the same column or the
  same 3x3 block.
\<close>

definition related :: "cell \<Rightarrow> cell \<Rightarrow> bool" where
  "related p q \<longleftrightarrow>
     fst p = fst q \<or> snd p = snd q \<or> (fst p div 3 = fst q div 3 \<and> snd p div 3 = snd q div 3)"

text \<open>No non-zero value occurs twice in a row, a column or a block.\<close>

definition no_duplicates :: "grid \<Rightarrow> bool" where
  "no_duplicates g \<longleftrightarrow>
     list_all (\<lambda>p. list_all (\<lambda>q. p \<noteq> q \<and> related p q \<and> val g p \<noteq> 0 \<longrightarrow> val g p \<noteq> val g q) cells)
       cells"

text \<open>No value at all occurs twice in a row, a column or a block.\<close>

definition all_different :: "grid \<Rightarrow> bool" where
  "all_different g \<longleftrightarrow>
     list_all (\<lambda>p. list_all (\<lambda>q. p \<noteq> q \<and> related p q \<longrightarrow> val g p \<noteq> val g q) cells) cells"

text \<open>
  The same, unit by unit: each of the nine rows, nine columns and nine blocks, read as a
  list, has no repeated entry. Block \<open>b\<close> starts at row \<open>3 * (b div 3)\<close> and column
  \<open>3 * (b mod 3)\<close>.
\<close>

definition units_distinct :: "grid \<Rightarrow> bool" where
  "units_distinct g \<longleftrightarrow>
     list_all (\<lambda>r. distinct (g ! r)) [0..<9]
     \<and> list_all (\<lambda>c. distinct (map (\<lambda>r. g ! r ! c) [0..<9])) [0..<9]
     \<and> list_all (\<lambda>b. distinct (map (\<lambda>k. g ! (3 * (b div 3) + k div 3) ! (3 * (b mod 3) + k mod 3))
                                   [0..<9])) [0..<9]"

definition in_range :: "grid \<Rightarrow> bool" where
  "in_range g \<longleftrightarrow> list_all (\<lambda>p. 0 \<le> val g p \<and> val g p \<le> 9) cells"

definition filled :: "grid \<Rightarrow> bool" where
  "filled g \<longleftrightarrow> list_all (\<lambda>p. 1 \<le> val g p \<and> val g p \<le> 9) cells"

text \<open>Every cell that holds a non-zero value in \<open>g\<close> holds the same value in \<open>g'\<close>.\<close>

definition keeps_givens :: "grid \<Rightarrow> grid \<Rightarrow> bool" where
  "keeps_givens g g' \<longleftrightarrow> list_all (\<lambda>p. val g p \<noteq> 0 \<longrightarrow> val g' p = val g p) cells"

definition solution :: "grid \<Rightarrow> grid \<Rightarrow> bool" where
  "solution g s \<longleftrightarrow> grid9 s \<and> filled s \<and> all_different s \<and> keeps_givens g s"

text \<open>What a call of the search leaves behind, as used in the proofs below.\<close>

definition bt_post :: "grid \<Rightarrow> bool \<Rightarrow> grid \<Rightarrow> bool" where
  "bt_post g b g' \<longleftrightarrow>
     grid9 g' \<and> (\<not> b \<longrightarrow> g' = g) \<and>
     (b \<longrightarrow> (\<forall>p\<in>set cells. val g' p \<noteq> 0) \<and> keeps_givens g g' \<and>
        (\<forall>p\<in>set cells. val g p = 0 \<longrightarrow> 1 \<le> val g' p \<and> val g' p \<le> 9) \<and>
        (no_duplicates g \<longrightarrow> no_duplicates g'))"

section \<open>Arc consistency\<close>

text \<open>
  The exceptions the modelled code can raise: the \<^verbatim>\<open>assert\<close> of the revision loop, a
  missing key of the domains dictionary, and an index outside a list.
\<close>

datatype error = AssertionError | KeyError | IndexError

text \<open>
  \<^verbatim>\<open>domains\<close> is a dictionary from coordinates to sets of candidate values. Every
  set is built by its own call of \<^verbatim>\<open>get_domain\<close>, so no two keys share a set object
  and an update at one key leaves the others alone.
\<close>


type_synonym domains = "cell \<rightharpoonup> int set"

text \<open>The set built by \<^verbatim>\<open>get_neighbors\<close>: one pass over \<^verbatim>\<open>range(9)\<close>, then the discard.\<close>

definition get_neighbors :: "nat \<Rightarrow> nat \<Rightarrow> cell set" where
  "get_neighbors row col =
     (let block_row = row - row mod 3; block_col = col - col mod 3
      in fold (\<lambda>k neighbors.
                 insert (block_row + k div 3, block_col + k mod 3)
                   ((if k \<noteq> row then insert (k, col) else id)
                     ((if k \<noteq> col then insert (row, k) else id) neighbors)))
              [0..<9] {}
         - {(row, col)})"

definition get_domain :: "grid \<Rightarrow> nat \<Rightarrow> nat \<Rightarrow> int set" where
  "get_domain puzzle row col =
     (if puzzle ! row ! col \<noteq> 0 then {puzzle ! row ! col}
      else (let block_row = row - row mod 3; block_col = col - col mod 3
            in fold (\<lambda>k allowed.
                       allowed - {puzzle ! row ! k} - {puzzle ! k ! col}
                         - {puzzle ! (block_row + k div 3) ! (block_col + k mod 3)})
                    [0..<9] {1..9}))"

text \<open>The dictionary comprehension over all 81 coordinates.\<close>

definition initial_domains :: "grid \<Rightarrow> domains" where
  "initial_domains puzzle =
     map_of (map (\<lambda>(row, col). ((row, col), get_domain puzzle row col)) cells)"

text \<open>
  \<^verbatim>\<open>revise(xi, xj)\<close> reads both sets and, when the set of \<open>xi\<close> has one element that the
  set of \<open>xj\<close> contains, removes it from the set of \<open>xj\<close> in place
  (\<^verbatim>\<open>xj_domain -= xi_domain\<close>). It returns whether it removed something; the model
  returns the dictionary as well.
\<close>

definition revise :: "domains \<Rightarrow> cell \<Rightarrow> cell \<Rightarrow> error + bool \<times> domains" where
  "revise domains xi xj =
     (case domains xj of
        None \<Rightarrow> Inl KeyError
      | Some xj_domain \<Rightarrow>
          (case domains xi of
             None \<Rightarrow> Inl KeyError
           | Some xi_domain \<Rightarrow>
               if card xi_domain = 1 \<and> xi_domain \<inter> xj_domain \<noteq> {}
               then Inr (True, domains(xj \<mapsto> xj_domain - xi_domain))
               else Inr (False, domains)))"

text \<open>
  The body of the \<^verbatim>\<open>while\<close> loop for one dequeued cell \<open>xi\<close>: the \<^verbatim>\<open>for\<close> loop over
  its neighbours, given as the list in which the set is iterated. It can raise, leave
  \<^verbatim>\<open>ac3_solve\<close> through \<^verbatim>\<open>return False\<close>, or finish with new domains and a longer
  queue. The test after a successful revision reads \<^verbatim>\<open>domains[(row, col)]\<close>, the set
  of the dequeued cell.
\<close>

datatype flow = Raise error | Return_False | Continue (domains_of: domains) (queue_of: "cell list")

fun visit_neighbors :: "domains \<Rightarrow> cell \<Rightarrow> cell list \<Rightarrow> cell list \<Rightarrow> flow" where
  "visit_neighbors domains xi [] queue = Continue domains queue"
| "visit_neighbors domains xi (neighbor # rest) queue =
     (if domains neighbor = None then Raise AssertionError
      else case revise domains xi neighbor of
             Inl e \<Rightarrow> Raise e
           | Inr (True, domains') \<Rightarrow>
               (case domains' xi of
                  None \<Rightarrow> Raise KeyError
                | Some xi_domain \<Rightarrow>
                    if card xi_domain = 0 then Return_False
                    else visit_neighbors domains' xi rest (queue @ [neighbor]))
           | Inr (False, domains') \<Rightarrow> visit_neighbors domains' xi rest queue)"

text \<open>
  The \<^verbatim>\<open>while queue:\<close> loop. Python does not fix the order in which a set of tuples is
  iterated, so the loop takes that order as the parameter \<open>order\<close>. \<open>None\<close> stands for
  a loop that never ends.
\<close>

partial_function (option)
  revision_loop :: "(cell \<Rightarrow> cell list) \<Rightarrow> domains \<Rightarrow> cell list \<Rightarrow> flow option"
where
  "revision_loop order domains queue =
     (case queue of
        [] \<Rightarrow> Some (Continue domains [])
      | xi # rest \<Rightarrow>
          (case visit_neighbors domains xi (order xi) rest of
             Continue domains' queue' \<Rightarrow> revision_loop order domains' queue'
           | Raise e \<Rightarrow> Some (Raise e)
           | Return_False \<Rightarrow> Some Return_False))"

declare revision_loop.simps [code]

text \<open>The initial queue: the empty cells, row by row.\<close>

definition empty_cells :: "grid \<Rightarrow> cell list" where
  "empty_cells puzzle = filter (\<lambda>(row, col). puzzle ! row ! col = 0) cells"

text \<open>
  The loop \<^verbatim>\<open>for row, col in domains\<close> visits the keys in insertion order, which is
  \<open>cells\<close>; \<^verbatim>\<open>pop()\<close> on a one-element set yields its element.
\<close>

definition apply_domains :: "domains \<Rightarrow> grid \<Rightarrow> grid" where
  "apply_domains domains puzzle =
     fold (\<lambda>(row, col) g.
             case domains (row, col) of
               None \<Rightarrow> g
             | Some values \<Rightarrow> if card values = 1 then put g row col (the_elem values) else g)
          cells puzzle"

text \<open>
  \<^verbatim>\<open>ac3_solve\<close> returns \<open>Inl\<close> of the exception when one escapes, otherwise the flag and
  the board. The flag of the backtracking fallback is dropped, as in the source.
\<close>

definition ac3_solve :: "(cell \<Rightarrow> cell list) \<Rightarrow> grid \<Rightarrow> (error + bool \<times> grid) option" where
  "ac3_solve order puzzle =
     (case revision_loop order (initial_domains puzzle) (empty_cells puzzle) of
        None \<Rightarrow> None
      | Some (Raise e) \<Rightarrow> Some (Inl e)
      | Some Return_False \<Rightarrow> Some (Inr (False, puzzle))
      | Some (Continue domains queue) \<Rightarrow>
          (let puzzle' = apply_domains domains puzzle
           in if \<not> check_win puzzle'
              then (case backtracking_solve puzzle' of
                      None \<Rightarrow> None
                    | Some (solved, puzzle'') \<Rightarrow> Some (Inr (True, puzzle'')))
              else Some (Inr (True, puzzle'))))"

text \<open>
  The first four steps of \<^verbatim>\<open>ac3_solve\<close> alone: the board after the singleton domains are
  written, when the revision loop ends with an empty queue.
\<close>

definition propagate :: "(cell \<Rightarrow> cell list) \<Rightarrow> grid \<Rightarrow> grid option" where
  "propagate order puzzle =
     (case revision_loop order (initial_domains puzzle) (empty_cells puzzle) of
        Some (Continue domains queue) \<Rightarrow> Some (apply_domains domains puzzle)
      | _ \<Rightarrow> None)"

text \<open>One iteration order, used to run the model: the neighbours row by row.\<close>

definition row_major :: "cell \<Rightarrow> cell list" where
  "row_major xi = filter (\<lambda>p. p \<in> get_neighbors (fst xi) (snd xi)) cells"

text \<open>
  \<open>order\<close> is a possible iteration order when, at every cell of the board, it lists
  exactly the members of the neighbour set, each once.
\<close>

definition iterates :: "(cell \<Rightarrow> cell list) \<Rightarrow> bool" where
  "iterates order \<longleftrightarrow>
     list_all (\<lambda>(row, col). set (order (row, col)) = get_neighbors row col \<and> distinct (order (row, col)))
       cells"

text \<open>The sum of the sizes of the 81 domains.\<close>

definition total_size :: "domains \<Rightarrow> nat" where
  "total_size domains = (\<Sum>p\<in>set cells. card (the (domains p)))"

text \<open>
  Every cell of the board has a finite domain, and the domain of each cell \<open>p\<close> satisfies
  \<open>P p\<close>.
\<close>

definition domains_ok :: "(cell \<Rightarrow> int set \<Rightarrow> bool) \<Rightarrow> domains \<Rightarrow> bool" where
  "domains_ok P domains \<longleftrightarrow> (\<forall>p\<in>set cells. \<exists>A. domains p = Some A \<and> finite A \<and> P p A)"

text \<open>One step of the loop of \<open>apply_domains\<close>, named for the proofs.\<close>

definition write_single :: "domains \<Rightarrow> cell \<Rightarrow> grid \<Rightarrow> grid" where
  "write_single d p g =
     (case d p of None \<Rightarrow> g
      | Some values \<Rightarrow> if card values = 1 then put g (fst p) (snd p) (the_elem values) else g)"

section \<open>The game object and its stored puzzles\<close>

text \<open>
  \<^verbatim>\<open>self.puzzle = self.puzzles[difficulty][index]\<close> binds the working board to the stored
  list object itself, while \<^verbatim>\<open>[row[:] for row in self.puzzle]\<close> builds a new one. To
  tell the two apart the game is modelled over a store of board objects: \<open>puzzles\<close>,
  \<open>puzzle\<close> and \<open>original_puzzle\<close> hold addresses, and a write through one address is
  seen through every name bound to it. A board and its nine rows are one object of the
  store: the source never shares rows between two boards.
\<close>

type_synonym addr = nat

record game =
  heap :: "addr \<Rightarrow> grid"
  next_free :: addr
  puzzles :: "string \<rightharpoonup> addr list"
  puzzle :: addr
  original_puzzle :: addr

text \<open>Python indexing of a list: a negative index counts from the end.\<close>

definition py_index :: "'a list \<Rightarrow> int \<Rightarrow> error + 'a" where
  "py_index xs i =
     (if 0 \<le> i \<and> i < int (length xs) then Inr (xs ! nat i)
      else if i < 0 \<and> - int (length xs) \<le> i then Inr (xs ! nat (int (length xs) + i))
      else Inl IndexError)"

definition load_puzzle :: "game \<Rightarrow> string \<Rightarrow> int \<Rightarrow> error + game" where
  "load_puzzle s difficulty index =
     (case puzzles s difficulty of
        None \<Rightarrow> Inr s
      | Some stored \<Rightarrow>
          if index < int (length stored) then
            (case py_index stored index of
               Inl e \<Rightarrow> Inl e
             | Inr a \<Rightarrow>
                 Inr (s\<lparr>heap := (heap s)(next_free s := heap s a),
                        next_free := Suc (next_free s),
                        puzzle := a,
                        original_puzzle := next_free s\<rparr>))
          else Inr s)"

text \<open>\<^verbatim>\<open>backtracking_solve\<close> as a method: it rewrites the object \<open>puzzle\<close> points to.\<close>

definition game_backtracking_solve :: "game \<Rightarrow> (bool \<times> game) option" where
  "game_backtracking_solve s =
     (case backtracking_solve (heap s (puzzle s)) of
        None \<Rightarrow> None
      | Some (solved, g') \<Rightarrow> Some (solved, s\<lparr>heap := (heap s)(puzzle s := g')\<rparr>))"

section \<open>Example boards\<close>

definition nearly_done :: grid where
  "nearly_done =
    [[5,3,4,6,7,8,9,1,2],
     [6,7,2,1,9,5,3,4,8],
     [1,9,8,3,4,2,5,6,7],
     [8,5,9,7,6,1,4,2,3],
     [4,2,6,8,5,3,7,9,1],
     [7,1,3,9,2,4,8,5,6],
     [9,6,1,5,3,7,2,8,4],
     [2,8,7,4,1,9,0,0,5],
     [3,4,0,0,8,0,0,7,9]]"

definition completed :: grid where
  "completed =
    [[5,3,4,6,7,8,9,1,2],
     [6,7,2,1,9,5,3,4,8],
     [1,9,8,3,4,2,5,6,7],
     [8,5,9,7,6,1,4,2,3],
     [4,2,6,8,5,3,7,9,1],
     [7,1,3,9,2,4,8,5,6],
     [9,6,1,5,3,7,2,8,4],
     [2,8,7,4,1,9,6,3,5],
     [3,4,5,2,8,6,1,7,9]]"

definition dead_end :: grid where
  "dead_end =
    [[1,2,3,4,5,6,7,0,0],
     [0,0,0,0,0,0,0,0,0],
     [0,0,0,0,0,0,0,0,0],
     [0,0,0,0,0,0,0,8,0],
     [0,0,0,0,0,0,0,0,0],
     [0,0,0,0,0,0,0,0,0],
     [0,0,0,0,0,0,0,0,8],
     [0,0,0,0,0,0,0,0,0],
     [0,0,0,0,0,0,0,0,0]]"

text \<open>
  A board whose givens repeat nowhere and which has no solution: the cells (0, 8) and
  (4, 8) of one column both have the single candidate 1, and (3, 7) has none.
\<close>

definition stuck :: grid where
  "stuck =
    [[5,3,4,6,7,8,9,0,0],
     [6,7,2,1,9,5,3,4,8],
     [1,9,8,3,4,2,5,6,7],
     [8,5,9,7,6,1,4,0,2],
     [4,2,6,8,5,3,7,9,0],
     [7,1,3,9,2,4,8,5,6],
     [9,6,1,5,3,7,2,8,4],
     [2,8,7,4,1,9,6,3,5],
     [3,4,5,2,8,6,1,7,9]]"

text \<open>The board \<open>ac3_solve\<close> leaves when run on \<open>stuck\<close>.\<close>

definition stuck_after :: grid where
  "stuck_after =
    [[5,3,4,6,7,8,9,2,1],
     [6,7,2,1,9,5,3,4,8],
     [1,9,8,3,4,2,5,6,7],
     [8,5,9,7,6,1,4,0,2],
     [4,2,6,8,5,3,7,9,0],
     [7,1,3,9,2,4,8,5,6],
     [9,6,1,5,3,7,2,8,4],
     [2,8,7,4,1,9,6,3,5],
     [3,4,5,2,8,6,1,7,9]]"

text \<open>A game with one stored puzzle; the working board and the snapshot are empty boards.\<close>

definition empty_board :: grid where
  "empty_board = replicate 9 (replicate 9 0)"

definition shelf :: game where
  "shelf = \<lparr>heap = (\<lambda>a. if a = 0 then nearly_done else empty_board),
            next_free = 3,
            puzzles = [''Easy'' \<mapsto> [0], ''Medium'' \<mapsto> [], ''Hard'' \<mapsto> []],
            puzzle = 1,
            original_puzzle = 2\<rparr>"

section \<open>Facts about boards\<close>

lemma set_cells: "set cells = {p. fst p < 9 \<and> snd p < 9}"
  by (auto simp: cells_def)

lemma distinct_cells: "distinct cells"
  unfolding cells_def by code_simp
  
lemma grid9_row: "grid9 g \<Longrightarrow> r < 9 \<Longrightarrow> length (g ! r) = 9"
  by (simp add: grid9_def list_all_length)

lemma grid9_put: 
  assumes "grid9 g" shows "grid9 (put g r c v)"
proof -
  have len: "length g = 9" and rows: "\<And>n. n < 9 \<Longrightarrow> length (g ! n) = 9"
    using assms by (simp_all add: grid9_def list_all_length)
  have "length (put g r c v ! n) = 9" if "n < 9" for n
    using that len rows[of n] by (cases "n = r") (simp_all add: put_def)
  then show ?thesis using len by (simp add: grid9_def list_all_length put_def)
qed

lemma val_put:
  "grid9 g \<Longrightarrow> r < 9 \<Longrightarrow> c < 9 \<Longrightarrow> val (put g r c v) p = (if p = (r, c) then v else val g p)"
  by (cases p) (auto simp: val_def put_def grid9_row grid9_def nth_list_update)

lemma put_restore:
  assumes "grid9 g" "val g (r, c) = 0"
  shows "put (put g r c v) r c 0 = g"
proof (cases "r < 9")
  case True
  then have r: "r < length g" using assms by (simp add: grid9_def)
  have "(g ! r)[c := 0] = g ! r"
    using assms(2) list_update_id[of "g ! r" c] by (simp add: val_def)
  then show ?thesis using r by (simp add: put_def)
next
  case False
  have "length g = 9" using assms by (simp add: grid9_def)
  then have "length g \<le> r" using False by simp
  then show ?thesis by (simp add: put_def list_update_beyond)
qed

lemma block_offsets:
  "(\<exists>i\<in>set [0..<3]. \<exists>j\<in>set [0..<3]. P (3 * (r div 3) + i) (3 * (c div 3) + j))
     \<longleftrightarrow> (\<exists>i j. i div 3 = r div 3 \<and> j div 3 = c div 3 \<and> P i j)" (is "?L = ?R")
proof
  assume ?L
  then obtain i j where "i < 3" "j < 3" "P (3 * (r div 3) + i) (3 * (c div 3) + j)" by auto
  moreover have "(3 * (r div 3) + i) div 3 = r div 3" "(3 * (c div 3) + j) div 3 = c div 3"
    using \<open>i < 3\<close> \<open>j < 3\<close> by simp_all
  ultimately show ?R by blast
next
  assume ?R
  then obtain i j where ij: "i div 3 = r div 3" "j div 3 = c div 3" "P i j" by blast
  have "i = 3 * (r div 3) + i mod 3" "j = 3 * (c div 3) + j mod 3"
    using ij by presburger+
  then have "P (3 * (r div 3) + i mod 3) (3 * (c div 3) + j mod 3)" using ij(3) by simp
  moreover have "i mod 3 \<in> set [0..<3]" "j mod 3 \<in> set [0..<3]" by simp_all
  ultimately show ?L by blast
qed

lemma is_valid_iff:
  assumes "grid9 g" "r < 9" "c < 9"
  shows "is_valid g num r c \<longleftrightarrow> (\<forall>q\<in>set cells. related (r, c) q \<longrightarrow> val g q \<noteq> num)"
proof -
  have row: "num \<in> set (g ! r) \<longleftrightarrow> (\<exists>j<9. val g (r, j) = num)"
    using assms by (auto simp: in_set_conv_nth grid9_row val_def)
  have col: "num \<in> set (map (\<lambda>i. g ! i ! c) [0..<9]) \<longleftrightarrow> (\<exists>i<9. val g (i, c) = num)"
    by (auto simp: val_def)
  have blk: "list_ex (\<lambda>i. list_ex (\<lambda>j. g ! (3 * (r div 3) + i) ! (3 * (c div 3) + j) = num) [0..<3]) [0..<3]
      \<longleftrightarrow> (\<exists>i j. i div 3 = r div 3 \<and> j div 3 = c div 3 \<and> val g (i, j) = num)"
    unfolding list_ex_iff val_def fst_conv snd_conv
    by (rule block_offsets[of "\<lambda>i j. g ! i ! j = num"])
  have in9: "i div 3 = r div 3 \<Longrightarrow> i < 9" "j div 3 = c div 3 \<Longrightarrow> j < 9" for i j
    using assms by presburger+
  have "is_valid g num r c \<longleftrightarrow> \<not> ((\<exists>j<9. val g (r, j) = num) \<or> (\<exists>i<9. val g (i, c) = num)
       \<or> (\<exists>i j. i div 3 = r div 3 \<and> j div 3 = c div 3 \<and> val g (i, j) = num))"
    unfolding is_valid_def Let_def row col blk by auto
  also have "\<dots> \<longleftrightarrow> (\<forall>q\<in>set cells. related (r, c) q \<longrightarrow> val g q \<noteq> num)"
  proof -
    have "(\<forall>q\<in>set cells. related (r, c) q \<longrightarrow> val g q \<noteq> num) \<longleftrightarrow>
       (\<forall>i j. i < 9 \<and> j < 9 \<and> (r = i \<or> c = j \<or> (r div 3 = i div 3 \<and> c div 3 = j div 3))
           \<longrightarrow> val g (i, j) \<noteq> num)"
      unfolding set_cells related_def by auto
    also have "\<dots> \<longleftrightarrow> \<not> ((\<exists>j<9. val g (r, j) = num) \<or> (\<exists>i<9. val g (i, c) = num)
       \<or> (\<exists>i j. i div 3 = r div 3 \<and> j div 3 = c div 3 \<and> val g (i, j) = num))"
      (is "?A \<longleftrightarrow> \<not> (?R \<or> ?C \<or> ?B)")
    proof
      assume a: ?A
      have "\<not> ?R" using a assms(2) by blast
      moreover have "\<not> ?C" using a assms(3) by blast
      moreover have "\<not> ?B"
      proof
        assume ?B
        then obtain i j where "i div 3 = r div 3" "j div 3 = c div 3" "val g (i, j) = num"
          by blast
        with a in9(1)[of i] in9(2)[of j] show False by auto
      qed
      ultimately show "\<not> (?R \<or> ?C \<or> ?B)" by blast
    next
      assume n: "\<not> (?R \<or> ?C \<or> ?B)"
      show ?A
      proof (intro allI impI)
        fix i j
        assume h: "i < 9 \<and> j < 9 \<and> (r = i \<or> c = j \<or> r div 3 = i div 3 \<and> c div 3 = j div 3)"
        show "val g (i, j) \<noteq> num"
        proof
          assume "val g (i, j) = num"
          with h have "?R \<or> ?C \<or> ?B" by metis
          with n show False by blast
        qed
      qed
    qed
    finally show ?thesis by simp
  qed
  finally show ?thesis .
qed

lemma grid_eqI:
  assumes "grid9 g" "grid9 h" "\<And>p. p \<in> set cells \<Longrightarrow> val g p = val h p"
  shows "g = h"
proof (rule nth_equalityI)
  show "length g = length h" using assms by (simp add: grid9_def)
next
  fix i assume i: "i < length g"
  then have i9: "i < 9" using assms by (simp add: grid9_def)
  show "g ! i = h ! i"
  proof (rule nth_equalityI)
    show "length (g ! i) = length (h ! i)" using assms i9 by (simp add: grid9_row)
  next
    fix j assume "j < length (g ! i)"
    then have "j < 9" using assms i9 by (simp add: grid9_row)
    then have "(i, j) \<in> set cells" using i9 by (simp add: set_cells)
    from assms(3)[OF this] show "g ! i ! j = h ! i ! j" by (simp add: val_def)
  qed
qed

lemma find_empty_cell_None:
  "find_empty_cell g = None \<longleftrightarrow> (\<forall>p\<in>set cells. val g p \<noteq> 0)"
  by (auto simp: find_empty_cell_def find_None_iff val_def)

lemma find_empty_cell_Some:
  assumes "find_empty_cell g = Some (r, c)"
  shows "r < 9 \<and> c < 9 \<and> val g (r, c) = 0"
proof -
  from assms obtain i where "i < length cells" "cells ! i = (r, c)" "g ! r ! c = 0"
    unfolding find_empty_cell_def find_Some_iff by auto
  then have "(r, c) \<in> set cells" by (metis nth_mem)
  then show ?thesis using \<open>g ! r ! c = 0\<close> by (simp add: set_cells val_def)
qed

lemma related_sym: "related p q \<Longrightarrow> related q p"
  by (auto simp: related_def)

lemma no_duplicates_iff:
  "no_duplicates g \<longleftrightarrow>
     (\<forall>p\<in>set cells. \<forall>q\<in>set cells. p \<noteq> q \<and> related p q \<and> val g p \<noteq> 0 \<longrightarrow> val g p \<noteq> val g q)"
  by (simp add: no_duplicates_def list_all_iff)

lemma all_different_iff:
  "all_different g \<longleftrightarrow>
     (\<forall>p\<in>set cells. \<forall>q\<in>set cells. p \<noteq> q \<and> related p q \<longrightarrow> val g p \<noteq> val g q)"
  by (simp add: all_different_def list_all_iff)

lemma keeps_givens_iff:
  "keeps_givens g g' \<longleftrightarrow> (\<forall>p\<in>set cells. val g p \<noteq> 0 \<longrightarrow> val g' p = val g p)"
  by (simp add: keeps_givens_def list_all_iff)

lemma filled_iff: "filled g \<longleftrightarrow> (\<forall>p\<in>set cells. 1 \<le> val g p \<and> val g p \<le> 9)"
  by (simp add: filled_def list_all_iff)

lemma in_range_iff: "in_range g \<longleftrightarrow> (\<forall>p\<in>set cells. 0 \<le> val g p \<and> val g p \<le> 9)"
  by (simp add: in_range_def list_all_iff)

lemma no_duplicates_put:
  assumes g: "grid9 g" and r: "r < 9" and c: "c < 9"
    and nd: "no_duplicates g" and ok: "is_valid g num r c"
  shows "no_duplicates (put g r c num)"
  unfolding no_duplicates_iff
proof (intro ballI impI)
  fix p q
  assume p: "p \<in> set cells" and q: "q \<in> set cells"
    and h: "p \<noteq> q \<and> related p q \<and> val (put g r c num) p \<noteq> 0"
  have free: "\<And>x. x \<in> set cells \<Longrightarrow> related (r, c) x \<Longrightarrow> val g x \<noteq> num"
    using ok is_valid_iff[OF g r c] by blast
  show "val (put g r c num) p \<noteq> val (put g r c num) q"
  proof (cases "p = (r, c)")
    case True
    then have "q \<noteq> (r, c)" "related (r, c) q" using h by auto
    then show ?thesis using True free[OF q] by (simp add: val_put[OF g r c])
  next
    case False
    show ?thesis
    proof (cases "q = (r, c)")
      case True
      then have "related (r, c) p" using h related_sym by blast
      then show ?thesis using True False free[OF p] by (simp add: val_put[OF g r c])
    next
      case qn: False
      have "val g p \<noteq> 0" using h False by (simp add: val_put[OF g r c])
      then have "val g p \<noteq> val g q" using nd p q h unfolding no_duplicates_iff by blast
      then show ?thesis using False qn by (simp add: val_put[OF g r c])
    qed
  qed
qed

lemma empties_card: "empties g = card {p \<in> set cells. val g p = 0}"
  unfolding empties_def using distinct_cells by (simp add: distinct_length_filter Int_def conj_commute)

lemma empties_put:
  assumes g: "grid9 g" and r: "r < 9" and c: "c < 9" and z: "val g (r, c) = 0" and v: "v \<noteq> 0"
  shows "empties (put g r c v) < empties g"
proof -
  have "{p \<in> set cells. val (put g r c v) p = 0} \<subset> {p \<in> set cells. val g p = 0}"
  proof
    show "{p \<in> set cells. val (put g r c v) p = 0} \<subseteq> {p \<in> set cells. val g p = 0}"
      using v by (auto simp: val_put[OF g r c] split: if_splits)
    have "(r, c) \<in> {p \<in> set cells. val g p = 0}" using r c z by (simp add: set_cells)
    moreover have "(r, c) \<notin> {p \<in> set cells. val (put g r c v) p = 0}"
      using v by (simp add: val_put[OF g r c])
    ultimately show "{p \<in> set cells. val (put g r c v) p = 0} \<noteq> {p \<in> set cells. val g p = 0}"
      by blast
  qed
  then show ?thesis unfolding empties_card by (intro psubset_card_mono) auto
qed

section \<open>Facts about the backtracking search\<close>

lemma bt_post_put:
  assumes g: "grid9 g" and r: "r < 9" and c: "c < 9" and z: "val g (r, c) = 0"
    and num: "1 \<le> num" "num \<le> 9" and ok: "is_valid g num r c"
    and post: "bt_post (put g r c num) True g'"
  shows "bt_post g True g'"
proof -
  let ?h = "put g r c num"
  have hv: "\<And>p. val ?h p = (if p = (r, c) then num else val g p)" by (simp add: val_put[OF g r c])
  from post have g': "grid9 g'" and full: "\<forall>p\<in>set cells. val g' p \<noteq> 0"
    and keep: "\<forall>p\<in>set cells. val ?h p \<noteq> 0 \<longrightarrow> val g' p = val ?h p"
    and rng: "\<forall>p\<in>set cells. val ?h p = 0 \<longrightarrow> 1 \<le> val g' p \<and> val g' p \<le> 9"
    and nd: "no_duplicates ?h \<longrightarrow> no_duplicates g'"
    by (simp_all add: bt_post_def keeps_givens_iff)
  have rc: "(r, c) \<in> set cells" using r c by (simp add: set_cells)
  have k: "keeps_givens g g'"
    unfolding keeps_givens_iff using keep z by (auto simp: hv split: if_splits)
  have "1 \<le> val g' p \<and> val g' p \<le> 9" if p: "p \<in> set cells" and "val g p = 0" for p
  proof (cases "p = (r, c)")
    case True
    then have "val g' p = num" using keep rc num by (simp add: hv)
    then show ?thesis using num by simp
  next
    case False
    then show ?thesis using rng p that(2) by (simp add: hv)
  qed
  moreover have "no_duplicates g \<longrightarrow> no_duplicates g'"
    using nd no_duplicates_put[OF g r c _ ok] by blast
  ultimately show ?thesis using g' full k by (simp add: bt_post_def)
qed

lemma try_values_post:
  assumes rec: "\<And>h b h'. grid9 h \<Longrightarrow> solve h = Some (b, h') \<Longrightarrow> bt_post h b h'"
    and g: "grid9 g" and r: "r < 9" and c: "c < 9" and z: "val g (r, c) = 0"
    and nums: "set nums \<subseteq> {1..9}"
    and res: "try_values solve g r c nums = Some (b, g')"
  shows "bt_post g b g'"
  using nums res
proof (induction nums)
  case Nil
  then show ?case using g by (simp add: bt_post_def)
next
  case (Cons num nums)
  then have num: "1 \<le> num" "num \<le> 9" and nums: "set nums \<subseteq> {1..9}" by auto
  show ?case
  proof (cases "is_valid g num r c")
    case False
    then show ?thesis using Cons.IH[OF nums] Cons.prems(2) by simp
  next
    case True
    then obtain b1 g1 where s: "solve (put g r c num) = Some (b1, g1)"
      using Cons.prems(2) by (auto split: option.splits)
    have p1: "bt_post (put g r c num) b1 g1" using rec[OF grid9_put[OF g] s] .
    show ?thesis
    proof (cases b1)
      case True
      then have "b = True" "g' = g1" using Cons.prems(2) s \<open>is_valid g num r c\<close> by simp_all
      then show ?thesis using bt_post_put[OF g r c z num \<open>is_valid g num r c\<close>] p1 True by simp
    next
      case False
      then have "g1 = put g r c num" using p1 by (simp add: bt_post_def)
      then have "put g1 r c 0 = g" using put_restore[OF g z] by simp
      then have "try_values solve g r c nums = Some (b, g')"
        using Cons.prems(2) s False \<open>is_valid g num r c\<close> by simp
      then show ?thesis using Cons.IH[OF nums] by simp
    qed
  qed
qed

lemma upto_1_9: "set [1..9] = {1..9::int}"
  by simp

lemma bt_post:
  "grid9 g \<Longrightarrow> bt n g = Some (b, g') \<Longrightarrow> bt_post g b g'"
proof (induction n arbitrary: g b g')
  case 0
  then show ?case by simp
next
  case (Suc n)
  show ?case
  proof (cases "find_empty_cell g")
    case None
    then have "b" "g' = g" using Suc.prems(2) by simp_all
    moreover have "\<forall>p\<in>set cells. val g p \<noteq> 0" using None by (simp add: find_empty_cell_None)
    ultimately show ?thesis using Suc.prems(1) by (simp add: bt_post_def keeps_givens_iff)
  next
    case (Some p)
    obtain r c where p: "p = (r, c)" by (cases p)
    have rc: "r < 9" "c < 9" "val g (r, c) = 0"
      using find_empty_cell_Some[of g r c] Some p by simp_all
    have "try_values (bt n) g r c [1..9] = Some (b, g')"
      using Suc.prems(2) Some p by simp
    then show ?thesis
      using try_values_post[where solve = "bt n", OF Suc.IH Suc.prems(1) rc] upto_1_9 by blast
  qed
qed

lemma try_values_total:
  assumes tot: "\<And>h. grid9 h \<Longrightarrow> empties h < m \<Longrightarrow> \<exists>res. solve h = Some res"
    and rec: "\<And>h b h'. grid9 h \<Longrightarrow> solve h = Some (b, h') \<Longrightarrow> bt_post h b h'"
    and g: "grid9 g" and r: "r < 9" and c: "c < 9" and z: "val g (r, c) = 0"
    and m: "empties g \<le> m"
    and nums: "0 \<notin> set nums"
  shows "\<exists>res. try_values solve g r c nums = Some res"
  using nums
proof (induction nums)
  case Nil
  show ?case by (intro exI[of _ "(False, g)"]) simp
next
  case (Cons num nums)
  then have num: "num \<noteq> 0" and nums: "0 \<notin> set nums" by auto
  show ?case
  proof (cases "is_valid g num r c")
    case False
    then show ?thesis using Cons.IH[OF nums] by simp
  next
    case True
    have "empties (put g r c num) < m" using empties_put[OF g r c z num] m by simp
    then obtain b1 g1 where s: "solve (put g r c num) = Some (b1, g1)"
      using tot[OF grid9_put[OF g]] by fastforce
    show ?thesis
    proof (cases b1)
      case True
      then show ?thesis using s \<open>is_valid g num r c\<close> by auto
    next
      case False
      have "bt_post (put g r c num) b1 g1" using rec[OF grid9_put[OF g] s] .
      then have "g1 = put g r c num" using False by (simp add: bt_post_def)
      then have "put g1 r c 0 = g" using put_restore[OF g z] by simp
      then show ?thesis using Cons.IH[OF nums] s False True by simp
    qed
  qed
qed

lemma bt_total: "grid9 g \<Longrightarrow> empties g < n \<Longrightarrow> \<exists>res. bt n g = Some res"
proof (induction n arbitrary: g)
  case 0
  then show ?case by simp
next
  case (Suc n)
  show ?case
  proof (cases "find_empty_cell g")
    case None
    then show ?thesis by (intro exI[of _ "(True, g)"]) simp
  next
    case (Some p)
    obtain r c where p: "p = (r, c)" by (cases p)
    have rc: "r < 9" "c < 9" "val g (r, c) = 0"
      using find_empty_cell_Some[of g r c] Some p by simp_all
    have z: "0 \<notin> set [1..9::int]" by simp
    have "empties g \<le> n" using Suc.prems(2) by simp
    from try_values_total[where solve = "bt n" and m = n, OF Suc.IH bt_post Suc.prems(1) rc this] z
    show ?thesis using Some p by simp
  qed
qed

lemma solution_is_valid:
  assumes g: "grid9 g" and r: "r < 9" and c: "c < 9" and z: "val g (r, c) = 0"
    and s: "solution g s"
  shows "is_valid g (val s (r, c)) r c"
  unfolding is_valid_iff[OF g r c]
proof (intro ballI impI)
  fix q assume q: "q \<in> set cells" and rel: "related (r, c) q"
  have rc: "(r, c) \<in> set cells" using r c by (simp add: set_cells)
  have f: "1 \<le> val s (r, c)" using s rc by (simp add: solution_def filled_iff)
  show "val g q \<noteq> val s (r, c)"
  proof (cases "val g q = 0")
    case True
    then show ?thesis using f by simp
  next
    case False
    then have "q \<noteq> (r, c)" using z by auto
    moreover have "val s q = val g q" using s q False by (simp add: solution_def keeps_givens_iff)
    ultimately show ?thesis
      using s rc q rel unfolding solution_def all_different_iff by metis
  qed
qed

lemma solution_put:
  assumes g: "grid9 g" and r: "r < 9" and c: "c < 9" and s: "solution g s"
  shows "solution (put g r c (val s (r, c))) s"
  using s unfolding solution_def keeps_givens_iff by (auto simp: val_put[OF g r c])

lemma try_values_complete:
  assumes tot: "\<And>h. grid9 h \<Longrightarrow> empties h < m \<Longrightarrow> \<exists>res. solve h = Some res"
    and rec: "\<And>h b h'. grid9 h \<Longrightarrow> solve h = Some (b, h') \<Longrightarrow> bt_post h b h'"
    and cmp: "\<And>h. grid9 h \<Longrightarrow> empties h < m \<Longrightarrow> solution h s \<Longrightarrow> \<exists>h'. solve h = Some (True, h')"
    and g: "grid9 g" and r: "r < 9" and c: "c < 9" and z: "val g (r, c) = 0"
    and m: "empties g \<le> m"
    and s: "solution g s"
    and nums: "0 \<notin> set nums" "val s (r, c) \<in> set nums"
  shows "\<exists>g'. try_values solve g r c nums = Some (True, g')"
  using nums
proof (induction nums)
  case Nil
  then show ?case by simp
next
  case (Cons num nums)
  then have num: "num \<noteq> 0" and nums: "0 \<notin> set nums" by auto
  show ?case
  proof (cases "is_valid g num r c")
    case False
    then have "num \<noteq> val s (r, c)" using solution_is_valid[OF g r c z s] by auto
    then have "val s (r, c) \<in> set nums" using Cons.prems(2) by auto
    then show ?thesis using Cons.IH[OF nums] False by simp
  next
    case True
    have e: "empties (put g r c num) < m" using empties_put[OF g r c z num] m by simp
    then obtain b1 g1 where so: "solve (put g r c num) = Some (b1, g1)"
      using tot[OF grid9_put[OF g]] by fastforce
    show ?thesis
    proof (cases b1)
      case True
      then show ?thesis using so \<open>is_valid g num r c\<close> by auto
    next
      case False
      have "num \<noteq> val s (r, c)"
      proof
        assume "num = val s (r, c)"
        then have "solution (put g r c num) s" using solution_put[OF g r c s] by simp
        from cmp[OF grid9_put[OF g] e this] so False show False by simp
      qed
      then have in_nums: "val s (r, c) \<in> set nums" using Cons.prems(2) by auto
      have "bt_post (put g r c num) b1 g1" using rec[OF grid9_put[OF g] so] .
      then have "g1 = put g r c num" using False by (simp add: bt_post_def)
      then have "put g1 r c 0 = g" using put_restore[OF g z] by simp
      then show ?thesis using Cons.IH[OF nums in_nums] so False True by simp
    qed
  qed
qed

lemma bt_complete:
  "grid9 g \<Longrightarrow> empties g < n \<Longrightarrow> solution g s \<Longrightarrow> \<exists>g'. bt n g = Some (True, g')"
proof (induction n arbitrary: g)
  case 0
  then show ?case by simp
next
  case (Suc n)
  show ?case
  proof (cases "find_empty_cell g")
    case None
    then show ?thesis by simp
  next
    case (Some p)
    obtain r c where p: "p = (r, c)" by (cases p)
    have rc: "r < 9" "c < 9" "val g (r, c) = 0"
      using find_empty_cell_Some[of g r c] Some p by simp_all
    have le: "empties g \<le> n" using Suc.prems(2) by simp
    have "(r, c) \<in> set cells" using rc by (simp add: set_cells)
    then have v: "val s (r, c) \<in> set [1..9]"
      using Suc.prems(3) by (simp add: solution_def filled_iff)
    have z: "0 \<notin> set [1..9::int]" by simp
    have "\<exists>g'. try_values (bt n) g r c [1..9] = Some (True, g')"
      by (rule try_values_complete[where solve = "bt n" and m = n and s = s,
            OF bt_total bt_post Suc.IH Suc.prems(1) rc le Suc.prems(3) z v])
         (assumption+)
    then show ?thesis using Some p by simp
  qed
qed

lemma backtracking_solve_post:
  "grid9 g \<Longrightarrow> backtracking_solve g = Some (b, g') \<Longrightarrow> bt_post g b g'"
  unfolding backtracking_solve_def by (rule bt_post)

lemma backtracking_solve_total: "grid9 g \<Longrightarrow> \<exists>b g'. backtracking_solve g = Some (b, g')"
  unfolding backtracking_solve_def using bt_total[of g "Suc (empties g)"] by auto

lemma backtracking_solve_complete:
  "grid9 g \<Longrightarrow> solution g s \<Longrightarrow> \<exists>g'. backtracking_solve g = Some (True, g')"
  unfolding backtracking_solve_def using bt_complete[of g "Suc (empties g)" s] by simp

lemma full_no_duplicates:
  assumes "\<forall>p\<in>set cells. val g p \<noteq> 0" "no_duplicates g"
  shows "all_different g"
  using assms unfolding no_duplicates_iff all_different_iff by blast

lemma backtracking_success_filled:
  assumes g: "grid9 g" and rng: "in_range g" and res: "backtracking_solve g = Some (True, g')"
  shows "filled g'"
  unfolding filled_iff
proof
  fix p assume p: "p \<in> set cells"
  from backtracking_solve_post[OF g res]
  have keep: "keeps_givens g g'"
    and new: "\<forall>p\<in>set cells. val g p = 0 \<longrightarrow> 1 \<le> val g' p \<and> val g' p \<le> 9"
    by (simp_all add: bt_post_def)
  show "1 \<le> val g' p \<and> val g' p \<le> 9"
  proof (cases "val g p = 0")
    case True
    then show ?thesis using new p by blast
  next
    case False
    then have "val g' p = val g p" using keep p by (simp add: keeps_givens_iff)
    moreover have "0 \<le> val g p \<and> val g p \<le> 9" using rng p by (simp add: in_range_iff)
    ultimately show ?thesis using False by simp
  qed
qed

lemma try_values_mono:
  assumes "\<And>h res. solve h = Some res \<Longrightarrow> solve' h = Some res"
  shows "try_values solve g r c nums = Some res \<Longrightarrow> try_values solve' g r c nums = Some res"
proof (induction nums arbitrary: g)
  case Nil
  then show ?case by simp
next
  case (Cons num nums)
  show ?case
  proof (cases "is_valid g num r c")
    case False
    then show ?thesis using Cons by simp
  next
    case True
    then obtain b1 g1 where s: "solve (put g r c num) = Some (b1, g1)"
      using Cons.prems by (auto split: option.splits)
    then have s': "solve' (put g r c num) = Some (b1, g1)" by (rule assms)
    show ?thesis
    proof (cases b1)
      case True
      then have "res = (True, g1)" using Cons.prems s \<open>is_valid g num r c\<close> by simp
      then show ?thesis using s' True \<open>is_valid g num r c\<close> by simp
    next
      case False
      then have "try_values solve (put g1 r c 0) r c nums = Some res"
        using Cons.prems s \<open>is_valid g num r c\<close> by simp
      then have "try_values solve' (put g1 r c 0) r c nums = Some res" by (rule Cons.IH)
      then show ?thesis using s' False \<open>is_valid g num r c\<close> by simp
    qed
  qed
qed

lemma bt_fuel_mono: "bt n g = Some res \<Longrightarrow> n \<le> m \<Longrightarrow> bt m g = Some res"
proof (induction n arbitrary: g m res)
  case 0
  then show ?case by simp
next
  case (Suc n)
  then obtain m' where m: "m = Suc m'" "n \<le> m'" by (cases m) auto
  show ?case
  proof (cases "find_empty_cell g")
    case None
    then show ?thesis using Suc.prems(1) m by simp
  next
    case (Some p)
    obtain r c where p: "p = (r, c)" by (cases p)
    have "try_values (bt n) g r c [1..9] = Some res" using Suc.prems(1) Some p by simp
    then have "try_values (bt m') g r c [1..9] = Some res"
      using try_values_mono[of "bt n" "bt m'"] Suc.IH m(2) by blast
    then show ?thesis using Some p m by simp
  qed
qed

lemma all_different_units:
  assumes g: "grid9 g" and d: "all_different g"
  shows "units_distinct g"
proof -
  have diff: "\<And>p q. p \<in> set cells \<Longrightarrow> q \<in> set cells \<Longrightarrow> p \<noteq> q \<Longrightarrow> related p q \<Longrightarrow> val g p \<noteq> val g q"
    using d unfolding all_different_iff by blast
  have rows: "distinct (g ! r)" if r: "r < 9" for r
    unfolding distinct_conv_nth
  proof (intro allI impI)
    fix i j assume "i < length (g ! r)" "j < length (g ! r)" "i \<noteq> j"
    then have "i < 9" "j < 9" using grid9_row[OF g r] by simp_all
    then show "g ! r ! i \<noteq> g ! r ! j"
      using diff[of "(r, i)" "(r, j)"] r \<open>i \<noteq> j\<close> by (simp add: set_cells related_def val_def)
  qed
  have cols: "distinct (map (\<lambda>r. g ! r ! c) [0..<9])" if c: "c < 9" for c
  proof -
    have "inj_on (\<lambda>r. g ! r ! c) {0..<9}"
    proof (rule inj_onI)
      fix i j assume "i \<in> {0..<9}" "j \<in> {0..<9}" and e: "g ! i ! c = g ! j ! c"
      then have ij: "i < 9" "j < 9" by simp_all
      show "i = j"
      proof (rule ccontr)
        assume "i \<noteq> j"
        then have "g ! i ! c \<noteq> g ! j ! c"
          using diff[of "(i, c)" "(j, c)"] c ij by (simp add: set_cells related_def val_def)
        then show False using e by simp
      qed
    qed
    then show ?thesis by (simp add: distinct_map)
  qed
  have blocks: "distinct (map (\<lambda>k. g ! (3 * (b div 3) + k div 3) ! (3 * (b mod 3) + k mod 3)) [0..<9])"
    if b: "b < 9" for b
  proof -
    let ?cell = "\<lambda>k. (3 * (b div 3) + k div 3, 3 * (b mod 3) + k mod 3)"
    have in_cells: "?cell k \<in> set cells" if "k < 9" for k
    proof -
      have "k div 3 < 3" "k mod 3 < 3" "b div 3 < 3" "b mod 3 < 3"
        using that b by (simp_all add: div_less_iff_less_mult)
      then have "3 * (b div 3) + k div 3 < 9" "3 * (b mod 3) + k mod 3 < 9" by linarith+
      then show ?thesis by (simp add: set_cells)
    qed
    have rel: "related (?cell i) (?cell j)" if "i < 9" "j < 9" for i j
    proof -
      have "i div 3 < 3" "j div 3 < 3" using that by simp_all
      then have "(3 * (b div 3) + i div 3) div 3 = b div 3"
        "(3 * (b div 3) + j div 3) div 3 = b div 3" by simp_all
      moreover have "(3 * (b mod 3) + i mod 3) div 3 = b mod 3"
        "(3 * (b mod 3) + j mod 3) div 3 = b mod 3" by simp_all
      ultimately show ?thesis by (simp add: related_def)
    qed
    have ne: "?cell i \<noteq> ?cell j" if "i \<noteq> j" for i j
    proof
      assume "?cell i = ?cell j"
      then have "i div 3 = j div 3" "i mod 3 = j mod 3" by simp_all
      then have "i = j" by (metis div_mult_mod_eq)
      then show False using that by simp
    qed
    have "inj_on (\<lambda>k. g ! (3 * (b div 3) + k div 3) ! (3 * (b mod 3) + k mod 3)) {0..<9}"
    proof (rule inj_onI)
      fix i j assume "i \<in> {0..<9}" "j \<in> {0..<9}"
        and e: "g ! (3 * (b div 3) + i div 3) ! (3 * (b mod 3) + i mod 3)
                = g ! (3 * (b div 3) + j div 3) ! (3 * (b mod 3) + j mod 3)"
      then have ij: "i < 9" "j < 9" by simp_all
      show "i = j"
      proof (rule ccontr)
        assume "i \<noteq> j"
        from diff[OF in_cells[OF ij(1)] in_cells[OF ij(2)] ne[OF this] rel[OF ij]]
        show False using e by (simp add: val_def)
      qed
    qed
    then show ?thesis by (simp add: distinct_map)
  qed
  show ?thesis unfolding units_distinct_def list_all_iff using rows cols blocks by simp
qed

section \<open>Facts about neighbours and the revision loop\<close>

lemma fold_insert3:
  "fold (\<lambda>k S. insert (a k) ((if P k then insert (b k) else id) ((if Q k then insert (c k) else id) S))) ks S0
     = S0 \<union> a ` set ks \<union> b ` {k \<in> set ks. P k} \<union> c ` {k \<in> set ks. Q k}"
  by (induction ks arbitrary: S0) auto

lemma block_origin: "(r::nat) - r mod 3 = 3 * (r div 3)"
  by presburger

lemma block_image:
  "(\<lambda>k. (3 * (r div 3) + k div 3, 3 * (c div 3) + k mod 3)) ` {0..<9::nat}
     = {q. fst q div 3 = r div 3 \<and> snd q div 3 = c div 3}" (is "?f ` _ = ?B")
proof (intro set_eqI iffI)
  fix q assume "q \<in> ?f ` {0..<9}"
  then obtain k where k: "k < 9" "q = ?f k" by auto
  have "k div 3 < 3" using k(1) by simp
  then have "(3 * (r div 3) + k div 3) div 3 = r div 3" by simp
  moreover have "(3 * (c div 3) + k mod 3) div 3 = c div 3" by simp
  ultimately show "q \<in> ?B" using k(2) by simp
next
  fix q assume "q \<in> ?B"
  then have q: "fst q div 3 = r div 3" "snd q div 3 = c div 3" by simp_all
  define i j where "i = fst q mod 3" and "j = snd q mod 3"
  have ij: "i < 3" "j < 3" by (simp_all add: i_def j_def)
  have "fst q = 3 * (fst q div 3) + i" "snd q = 3 * (snd q div 3) + j"
    unfolding i_def j_def by simp_all
  then have fq: "fst q = 3 * (r div 3) + i" "snd q = 3 * (c div 3) + j"
    unfolding q .
  have "(3 * i + j) div 3 = i" "(3 * i + j) mod 3 = j" "3 * i + j < 9" using ij by simp_all
  then have "?f (3 * i + j) = q" using fq by (simp add: prod_eq_iff)
  moreover have "3 * i + j \<in> {0..<9}" using \<open>3 * i + j < 9\<close> by simp
  ultimately show "q \<in> ?f ` {0..<9}" by (rule image_eqI[OF sym])

qed


lemma get_neighbors_eq:
  assumes "r < 9" "c < 9"
  shows "get_neighbors r c = {q \<in> set cells. q \<noteq> (r, c) \<and> related (r, c) q}"
proof -
  have in9: "i div 3 = r div 3 \<Longrightarrow> i < 9" "j div 3 = c div 3 \<Longrightarrow> j < 9" for i j
    using assms by presburger+
  have "get_neighbors r c =
      ({q. fst q div 3 = r div 3 \<and> snd q div 3 = c div 3}
        \<union> (\<lambda>k. (k, c)) ` {k \<in> {0..<9}. k \<noteq> r} \<union> (\<lambda>k. (r, k)) ` {k \<in> {0..<9}. k \<noteq> c}) - {(r, c)}"
    unfolding get_neighbors_def Let_def block_origin fold_insert3 by (simp add: block_image)
  also have "\<dots> = {q \<in> set cells. q \<noteq> (r, c) \<and> related (r, c) q}" (is "?L = ?R")
  proof (intro set_eqI iffI)
    fix q assume "q \<in> ?L"
    then show "q \<in> ?R"
      unfolding set_cells related_def using assms in9(1)[of "fst q"] in9(2)[of "snd q"]
      by (cases q) auto
  next
    fix q assume "q \<in> ?R"
    then show "q \<in> ?L"
      unfolding set_cells related_def by (cases q) auto
  qed
  finally show ?thesis .
qed

lemma revise_removes:
  assumes "revise d xi xj = Inr (True, d')"
  shows "\<exists>A B. d xi = Some A \<and> d xj = Some B \<and> card A = 1 \<and> d' = d(xj \<mapsto> B - A) \<and> B - A \<subset> B"
  using assms by (auto simp: revise_def split: option.splits if_splits)

lemma neighbor_facts:
  assumes "xi \<in> set cells" "q \<in> get_neighbors (fst xi) (snd xi)"
  shows "q \<in> set cells" "q \<noteq> xi" "related xi q"
  using assms get_neighbors_eq[of "fst xi" "snd xi"] by (auto simp: set_cells)

lemma iterates_set:
  assumes "iterates order" "xi \<in> set cells"
  shows "set (order xi) = get_neighbors (fst xi) (snd xi)"
  using assms unfolding iterates_def list_all_iff by (cases xi) auto

lemma total_size_shrinks:
  assumes xj: "xj \<in> set cells" and B: "d xj = Some B" "finite B" and AB: "A \<inter> B \<noteq> {}"
  shows "total_size (d(xj \<mapsto> B - A)) < total_size d"
proof -
  let ?f = "\<lambda>d p. card (the (d p))"
  let ?rest = "set cells - {xj}"
  have fin: "finite (set cells)" by simp
  have same: "sum (?f (d(xj \<mapsto> B - A))) ?rest = sum (?f d) ?rest"
    by (rule sum.cong) auto
  have "B - A \<subset> B" using AB by blast
  then have less: "card (B - A) < card B" using B(2) by (rule psubset_card_mono[rotated])
  have "total_size (d(xj \<mapsto> B - A)) = card (B - A) + sum (?f (d(xj \<mapsto> B - A))) ?rest"
    unfolding total_size_def using sum.remove[OF fin xj, of "?f (d(xj \<mapsto> B - A))"] by simp
  moreover have "total_size d = card B + sum (?f d) ?rest"
    unfolding total_size_def using sum.remove[OF fin xj, of "?f d"] B(1) by simp
  ultimately show ?thesis using same less by simp
qed

lemma visit_neighbors_inv:
  assumes step: "\<And>xj A B. xj \<in> set cells \<Longrightarrow> xj \<noteq> xi \<Longrightarrow> related xi xj \<Longrightarrow>
                   P xi A \<Longrightarrow> P xj B \<Longrightarrow> card A = 1 \<Longrightarrow> P xj (B - A)"
    and xi: "xi \<in> set cells"
    and inv: "domains_ok P d"
    and nbs: "set nbs \<subseteq> get_neighbors (fst xi) (snd xi)"
    and q: "set q \<subseteq> set cells"
  shows "\<exists>d' q'. visit_neighbors d xi nbs q = Continue d' q' \<and> domains_ok P d'
           \<and> set q' \<subseteq> set cells \<and> total_size d' + length q' \<le> total_size d + length q"
  using inv nbs q
proof (induction nbs arbitrary: d q)
  case Nil
  then show ?case by simp
next
  case (Cons nb nbs)
  have nb: "nb \<in> set cells" "nb \<noteq> xi" "related xi nb"
    using neighbor_facts[OF xi, of nb] Cons.prems(2) by auto
  obtain A where A: "d xi = Some A" "finite A" "P xi A"
    using Cons.prems(1) xi unfolding domains_ok_def by blast
  obtain B where B: "d nb = Some B" "finite B" "P nb B"
    using Cons.prems(1) nb(1) unfolding domains_ok_def by blast
  have nbs: "set nbs \<subseteq> get_neighbors (fst xi) (snd xi)" using Cons.prems(2) by simp
  show ?case
  proof (cases "card A = 1 \<and> A \<inter> B \<noteq> {}")
    case False
    then have "revise d xi nb = Inr (False, d)"
      using A(1) B(1) by (auto simp: revise_def)
    then have "visit_neighbors d xi (nb # nbs) q = visit_neighbors d xi nbs q"
      using B(1) by simp
    then show ?thesis using Cons.IH[OF Cons.prems(1) nbs Cons.prems(3)] by simp
  next
    case True
    let ?d = "d(nb \<mapsto> B - A)"
    have rev: "revise d xi nb = Inr (True, ?d)" using True A(1) B(1) by (simp add: revise_def)
    have dxi: "?d xi = Some A" using nb(2) A(1) by simp
    have "card A \<noteq> 0" using True by simp
    then have unfold: "visit_neighbors d xi (nb # nbs) q = visit_neighbors ?d xi nbs (q @ [nb])"
      using rev dxi B(1) by simp
    have ok: "domains_ok P ?d"
      unfolding domains_ok_def
    proof
      fix p assume p: "p \<in> set cells"
      show "\<exists>S. ?d p = Some S \<and> finite S \<and> P p S"
      proof (cases "p = nb")
        case True
        have "P nb (B - A)" using step[OF nb A(3) B(3)] \<open>card A = 1 \<and> A \<inter> B \<noteq> {}\<close> by simp
        then show ?thesis using True B(2) by simp
      next
        case False
        then show ?thesis using Cons.prems(1) p unfolding domains_ok_def by simp
      qed
    qed
    have q': "set (q @ [nb]) \<subseteq> set cells" using Cons.prems(3) nb(1) by simp
    have less: "total_size ?d < total_size d"
      using total_size_shrinks[of nb d B A] nb(1) B(1,2) True by simp
    from Cons.IH[OF ok nbs q'] obtain d' q' where
      r: "visit_neighbors ?d xi nbs (q @ [nb]) = Continue d' q'" "domains_ok P d'"
         "set q' \<subseteq> set cells" "total_size d' + length q' \<le> total_size ?d + length (q @ [nb])"
      by blast
    have "total_size d' + length q' \<le> total_size d + length q" using r(4) less by simp
    then show ?thesis using unfold r(1,2,3) by simp
  qed
qed

lemma revision_loop_drains:
  assumes step: "\<And>xi xj A B. xi \<in> set cells \<Longrightarrow> xj \<in> set cells \<Longrightarrow> xj \<noteq> xi \<Longrightarrow> related xi xj \<Longrightarrow>
                   P xi A \<Longrightarrow> P xj B \<Longrightarrow> card A = 1 \<Longrightarrow> P xj (B - A)"
    and ord: "iterates order"
  shows "domains_ok P d \<Longrightarrow> set q \<subseteq> set cells \<Longrightarrow>
         \<exists>d'. revision_loop order d q = Some (Continue d' []) \<and> domains_ok P d'"
proof (induction "total_size d + length q" arbitrary: d q rule: less_induct)
  case less
  show ?case
  proof (cases q)
    case Nil
    then show ?thesis using less.prems(1) by (simp add: revision_loop.simps)
  next
    case (Cons xi rest)
    then have xi: "xi \<in> set cells" and rest: "set rest \<subseteq> set cells" using less.prems(2) by auto
    have nbs: "set (order xi) \<subseteq> get_neighbors (fst xi) (snd xi)"
      using iterates_set[OF ord xi] by simp
    from visit_neighbors_inv[where P = P, OF step[OF xi] xi less.prems(1) nbs rest]
    obtain d' q' where
      r: "visit_neighbors d xi (order xi) rest = Continue d' q'" "domains_ok P d'"
         "set q' \<subseteq> set cells" "total_size d' + length q' \<le> total_size d + length rest"
      by blast
    have "total_size d' + length q' < total_size d + length q" using r(4) Cons by simp
    from less.hyps[OF this r(2,3)] obtain d'' where
      "revision_loop order d' q' = Some (Continue d'' [])" "domains_ok P d''" by blast
    then show ?thesis using Cons r(1) by (subst revision_loop.simps) simp
  qed
qed

section \<open>Facts about domains and their application to the board\<close>

lemma fold_remove3:
  "fold (\<lambda>k S. S - {a k} - {b k} - {c k}) ks S0 = S0 - a ` set ks - b ` set ks - c ` set ks"
  by (induction ks arbitrary: S0) auto

lemma get_domain_given: "board ! row ! col \<noteq> 0 \<Longrightarrow> get_domain board row col = {board ! row ! col}"
  by (simp add: get_domain_def)

lemma get_domain_empty:
  "board ! row ! col = 0 \<Longrightarrow>
   get_domain board row col =
     {1..9} - (\<lambda>k. board ! row ! k) ` {0..<9} - (\<lambda>k. board ! k ! col) ` {0..<9}
       - (\<lambda>k. board ! (3 * (row div 3) + k div 3) ! (3 * (col div 3) + k mod 3)) ` {0..<9}"
  by (simp add: get_domain_def Let_def block_origin fold_remove3)

lemma finite_get_domain: "finite (get_domain board row col)"
  by (cases "board ! row ! col = 0") (simp_all add: get_domain_empty get_domain_given)

lemma initial_domains_cell:
  "p \<in> set cells \<Longrightarrow> initial_domains board p = Some (get_domain board (fst p) (snd p))"
proof -
  have "map (\<lambda>(row, col). ((row, col), get_domain board row col)) cells
        = map (\<lambda>p. (p, get_domain board (fst p) (snd p))) cells"
    by (rule map_cong) auto
  then have "initial_domains board = (Some \<circ> (\<lambda>p. get_domain board (fst p) (snd p))) |` set cells"
    unfolding initial_domains_def by (simp only: map_of_map_restrict)
  then show "p \<in> set cells \<Longrightarrow> ?thesis" by simp
qed

lemma initial_domains_ok:
  assumes "\<And>p. p \<in> set cells \<Longrightarrow> P p (get_domain board (fst p) (snd p))"
  shows "domains_ok P (initial_domains board)"
  unfolding domains_ok_def using assms by (simp add: initial_domains_cell finite_get_domain)

lemma empty_cells_subset: "set (empty_cells board) \<subseteq> set cells"
  by (auto simp: empty_cells_def)

lemma propagation_drains:
  assumes "iterates order"
  shows "\<exists>d. revision_loop order (initial_domains board) (empty_cells board) = Some (Continue d [])"
proof -
  have "domains_ok (\<lambda>p A. True) (initial_domains board)" by (rule initial_domains_ok) simp
  from revision_loop_drains[where P = "\<lambda>p A. True", OF _ assms this empty_cells_subset]
  show ?thesis by blast
qed

lemma check_win_iff: "grid9 g \<Longrightarrow> check_win g \<longleftrightarrow> (\<forall>p\<in>set cells. val g p \<noteq> 0)"
proof -
  assume g: "grid9 g"
  have "check_win g \<longleftrightarrow> (\<forall>r<9. \<forall>c<9. g ! r ! c \<noteq> 0)"
  proof -
    have "check_win g \<longleftrightarrow> (\<forall>r<length g. 0 \<notin> set (g ! r))"
      unfolding check_win_def list_all_length list_ex_iff by auto
    also have "\<dots> \<longleftrightarrow> (\<forall>r<9. \<forall>c<9. g ! r ! c \<noteq> 0)"
    proof -
      have "0 \<notin> set (g ! r) \<longleftrightarrow> (\<forall>c<9. g ! r ! c \<noteq> 0)" if "r < 9" for r
        using grid9_row[OF g that] by (metis in_set_conv_nth)
      moreover have "length g = 9" using g by (simp add: grid9_def)
      ultimately show ?thesis by simp
    qed
    finally show ?thesis .
  qed
  then show ?thesis by (auto simp: set_cells val_def)
qed

lemma apply_domains_alt: "apply_domains d g = fold (write_single d) cells g"
proof -
  have "(\<lambda>(row, col) g. case d (row, col) of None \<Rightarrow> g
          | Some values \<Rightarrow> if card values = 1 then put g row col (the_elem values) else g)
        = write_single d"
    by (auto simp: write_single_def fun_eq_iff split: option.splits)
  then show ?thesis by (simp add: apply_domains_def)
qed

lemma write_single_grid9: "grid9 g \<Longrightarrow> grid9 (write_single d p g)"
  by (auto simp: write_single_def grid9_put split: option.splits)

lemma write_single_val:
  assumes "grid9 g" "p \<in> set cells" "d p = Some A"
  shows "val (write_single d p g) q = (if q = p \<and> card A = 1 then the_elem A else val g q)"
  using assms by (cases p) (auto simp: write_single_def val_put set_cells)

lemma fold_write_single:
  assumes "\<forall>p\<in>set cells. \<exists>A. d p = Some A"
  shows "grid9 g \<Longrightarrow> set ps \<subseteq> set cells \<Longrightarrow>
     grid9 (fold (write_single d) ps g) \<and>
     (\<forall>q. val (fold (write_single d) ps g) q
          = (if q \<in> set ps \<and> card (the (d q)) = 1 then the_elem (the (d q)) else val g q))"
proof (induction ps arbitrary: g)
  case Nil
  then show ?case by simp
next
  case (Cons p ps)
  then have p: "p \<in> set cells" and ps: "set ps \<subseteq> set cells" by auto
  obtain A where A: "d p = Some A" using assms p by blast
  have g1: "grid9 (write_single d p g)" using Cons.prems(1) by (rule write_single_grid9)
  from Cons.IH[OF g1 ps] show ?case
    using write_single_val[of g p d A] Cons.prems(1) p A by auto
qed

lemma apply_domains_val:
  assumes "domains_ok P d" "grid9 g"
  shows "grid9 (apply_domains d g)"
    and "q \<in> set cells \<Longrightarrow> val (apply_domains d g) q
          = (if card (the (d q)) = 1 then the_elem (the (d q)) else val g q)"
proof -
  have "\<forall>p\<in>set cells. \<exists>A. d p = Some A" using assms(1) unfolding domains_ok_def by blast
  from fold_write_single[OF this assms(2), of cells]
  have r: "grid9 (fold (write_single d) cells g)"
    "\<And>q. val (fold (write_single d) cells g) q
       = (if q \<in> set cells \<and> card (the (d q)) = 1 then the_elem (the (d q)) else val g q)"
    by blast+
  show "grid9 (apply_domains d g)" using r(1) by (simp add: apply_domains_alt)
  show "q \<in> set cells \<Longrightarrow> val (apply_domains d g) q
          = (if card (the (d q)) = 1 then the_elem (the (d q)) else val g q)"
    unfolding apply_domains_alt r(2) by simp
qed

lemma apply_domains_grid9: "grid9 g \<Longrightarrow> grid9 (apply_domains d g)"
proof -
  have "grid9 g \<Longrightarrow> grid9 (fold (write_single d) ps g)" for ps
    by (induction ps arbitrary: g) (simp_all add: write_single_grid9)
  then show "grid9 g \<Longrightarrow> ?thesis" by (simp add: apply_domains_alt)
qed

lemma ac3_solve_drained:
  assumes g: "grid9 board"
    and loop: "revision_loop order (initial_domains board) (empty_cells board) = Some (Continue d q)"
  shows "\<exists>b g'. backtracking_solve (apply_domains d board) = Some (b, g')
           \<and> ac3_solve order board
               = Some (Inr (True, if check_win (apply_domains d board)
                                  then apply_domains d board else g'))"
proof -
  have "grid9 (apply_domains d board)" using g by (rule apply_domains_grid9)
  then obtain b g' where "backtracking_solve (apply_domains d board) = Some (b, g')"
    using backtracking_solve_total by blast
  then show ?thesis using loop by (auto simp: ac3_solve_def Let_def)
qed

lemma ac3_solve_always_true:
  assumes "grid9 board" "iterates order"
  shows "\<exists>g'. ac3_solve order board = Some (Inr (True, g'))"
proof -
  have "domains_ok (\<lambda>p A. True) (initial_domains board)" by (rule initial_domains_ok) simp
  from revision_loop_drains[where P = "\<lambda>p A. True", OF _ assms(2) this empty_cells_subset]
  obtain d where d: "revision_loop order (initial_domains board) (empty_cells board) = Some (Continue d [])"
    "domains_ok (\<lambda>p A. True) d" by blast
  from ac3_solve_drained[OF assms(1) d(1)] show ?thesis by blast
qed

lemma iterates_row_major: "iterates row_major"
proof -
  have "set (row_major (r, c)) = get_neighbors r c \<and> distinct (row_major (r, c))"
    if "(r, c) \<in> set cells" for r c
  proof -
    have "get_neighbors r c \<subseteq> set cells"
      using neighbor_facts(1)[OF that] by auto
    then show ?thesis using distinct_cells by (auto simp: row_major_def)
  qed
  then show ?thesis unfolding iterates_def list_all_iff by auto
qed

section \<open>Boards that have a solution\<close>

lemma keeps_givens_trans:
  assumes "keeps_givens g h" "keeps_givens h k"
  shows "keeps_givens g k"
  using assms unfolding keeps_givens_iff by metis

lemma solution_no_duplicates:
  assumes "solution g s"
  shows "no_duplicates g"
  unfolding no_duplicates_iff
proof (intro ballI impI)
  fix p q assume p: "p \<in> set cells" and q: "q \<in> set cells"
    and h: "p \<noteq> q \<and> related p q \<and> val g p \<noteq> 0"
  have sp: "val s p = val g p" using assms p h by (simp add: solution_def keeps_givens_iff)
  have ne: "val s p \<noteq> val s q"
    using assms p q h unfolding solution_def all_different_iff by blast
  show "val g p \<noteq> val g q"
  proof
    assume e: "val g p = val g q"
    then have "val g q \<noteq> 0" using h by simp
    then have "val s q = val g q" using assms q by (simp add: solution_def keeps_givens_iff)
    then show False using sp ne e by simp
  qed
qed

lemma backtracking_solve_finds_solution:
  assumes g: "grid9 g" and s: "solution g s"
  shows "\<exists>g'. backtracking_solve g = Some (True, g') \<and> solution g g'"
proof -
  obtain g' where res: "backtracking_solve g = Some (True, g')"
    using backtracking_solve_complete[OF g s] by blast
  from backtracking_solve_post[OF g res]
  have g': "grid9 g'" and full: "\<forall>p\<in>set cells. val g' p \<noteq> 0" and keep: "keeps_givens g g'"
    and new: "\<forall>p\<in>set cells. val g p = 0 \<longrightarrow> 1 \<le> val g' p \<and> val g' p \<le> 9"
    and nd: "no_duplicates g'"
    using solution_no_duplicates[OF s] by (simp_all add: bt_post_def)
  have "filled g'"
    unfolding filled_iff
  proof
    fix p assume p: "p \<in> set cells"
    show "1 \<le> val g' p \<and> val g' p \<le> 9"
    proof (cases "val g p = 0")
      case True
      then show ?thesis using new p by blast
    next
      case False
      then have "val g' p = val g p" "val s p = val g p"
        using keep s p by (simp_all add: keeps_givens_iff solution_def)
      moreover have "1 \<le> val s p \<and> val s p \<le> 9"
        using s p by (simp add: solution_def filled_iff)
      ultimately show ?thesis by simp
    qed
  qed
  moreover have "all_different g'" using full nd by (rule full_no_duplicates)
  ultimately have "solution g g'" using g' keep by (simp add: solution_def)
  then show ?thesis using res by blast
qed

lemma solution_in_initial_domain:
  assumes g: "grid9 g" and s: "solution g s" and p: "p \<in> set cells"
  shows "val s p \<in> get_domain g (fst p) (snd p)"
proof -
  obtain r c where rc: "p = (r, c)" by (cases p)
  have r: "r < 9" and c: "c < 9" using p rc by (simp_all add: set_cells)
  show ?thesis
  proof (cases "val g p = 0")
    case False
    then have "val s p = val g p" using s p by (simp add: solution_def keeps_givens_iff)
    then show ?thesis using False rc by (simp add: get_domain_given val_def)
  next
    case True
    then have z: "val g (r, c) = 0" using rc by simp
    have free: "\<And>q. q \<in> set cells \<Longrightarrow> related (r, c) q \<Longrightarrow> val g q \<noteq> val s (r, c)"
      using solution_is_valid[OF g r c z s] is_valid_iff[OF g r c] by blast
    have rng: "val s (r, c) \<in> {1..9}" using s p rc by (simp add: solution_def filled_iff)
    have row: "g ! r ! k \<noteq> val s (r, c)" if "k < 9" for k
      using free[of "(r, k)"] that r by (simp add: set_cells related_def val_def)
    have col: "g ! k ! c \<noteq> val s (r, c)" if "k < 9" for k
      using free[of "(k, c)"] that c by (simp add: set_cells related_def val_def)
    have blk: "g ! (3 * (r div 3) + k div 3) ! (3 * (c div 3) + k mod 3) \<noteq> val s (r, c)"
      if "k < 9" for k
    proof -
      have "k div 3 < 3" using that by simp
      moreover have "r div 3 < 3" "c div 3 < 3" "k mod 3 < 3"
        using r c by (simp_all add: div_less_iff_less_mult)
      ultimately have "3 * (r div 3) + k div 3 < 9" "3 * (c div 3) + k mod 3 < 9"
        by linarith+
      moreover have "(3 * (r div 3) + k div 3) div 3 = r div 3" using \<open>k div 3 < 3\<close> by simp
      moreover have "(3 * (c div 3) + k mod 3) div 3 = c div 3" by simp
      ultimately show ?thesis
        using free[of "(3 * (r div 3) + k div 3, 3 * (c div 3) + k mod 3)"]
        by (simp add: set_cells related_def val_def)
    qed
    have "g ! r ! c = 0" using z by (simp add: val_def)
    moreover have "val s (r, c) \<notin> (\<lambda>k. g ! r ! k) ` {0..<9}"
      using row by force
    moreover have "val s (r, c) \<notin> (\<lambda>k. g ! k ! c) ` {0..<9}"
      using col by force
    moreover have "val s (r, c) \<notin>
        (\<lambda>k. g ! (3 * (r div 3) + k div 3) ! (3 * (c div 3) + k mod 3)) ` {0..<9}"
      using blk by force
    ultimately show ?thesis
      unfolding rc fst_conv snd_conv using rng by (simp add: get_domain_empty)
  qed
qed

lemma solution_survives_revision:
  assumes s: "solution g s"
    and "xi \<in> set cells" "xj \<in> set cells" "xj \<noteq> xi" "related xi xj"
    and "val s xi \<in> A" "val s xj \<in> B" "card A = 1"
  shows "val s xj \<in> B - A"
proof -
  have "A = {val s xi}" using assms(6,8) by (auto simp: card_1_singleton_iff)
  moreover have "val s xi \<noteq> val s xj"
    using s assms(2-5) unfolding solution_def all_different_iff by metis
  ultimately show ?thesis using assms(7) by auto
qed

lemma propagation_keeps_solution:
  assumes g: "grid9 g" and ord: "iterates order" and s: "solution g s"
  shows "\<exists>d. revision_loop order (initial_domains g) (empty_cells g) = Some (Continue d [])
           \<and> grid9 (apply_domains d g) \<and> keeps_givens g (apply_domains d g)
           \<and> solution (apply_domains d g) s"
proof -
  let ?P = "\<lambda>p A. val s p \<in> A"
  have init: "domains_ok ?P (initial_domains g)"
    by (rule initial_domains_ok) (rule solution_in_initial_domain[OF g s])
  have step: "\<And>xi xj A B. xi \<in> set cells \<Longrightarrow> xj \<in> set cells \<Longrightarrow> xj \<noteq> xi \<Longrightarrow> related xi xj \<Longrightarrow>
                   ?P xi A \<Longrightarrow> ?P xj B \<Longrightarrow> card A = 1 \<Longrightarrow> ?P xj (B - A)"
    by (rule solution_survives_revision[OF s])
  have "\<exists>d. revision_loop order (initial_domains g) (empty_cells g) = Some (Continue d [])
          \<and> domains_ok ?P d"
  proof (rule revision_loop_drains[where P = ?P])
    show "iterates order" by fact
    show "domains_ok ?P (initial_domains g)" by fact
    show "set (empty_cells g) \<subseteq> set cells" by (rule empty_cells_subset)
  qed (rule step)
  then obtain d where d: "revision_loop order (initial_domains g) (empty_cells g) = Some (Continue d [])"
    and ok: "domains_ok ?P d" by blast
  let ?h = "apply_domains d g"
  have h9: "grid9 ?h" using g by (rule apply_domains_grid9)
  have v: "val ?h q = val s q \<or> val ?h q = val g q" if q: "q \<in> set cells" for q
  proof -
    obtain A where A: "d q = Some A" "val s q \<in> A"
      using ok q unfolding domains_ok_def by blast
    show ?thesis
    proof (cases "card A = 1")
      case True
      then have "A = {val s q}" using A(2) by (auto simp: card_1_singleton_iff)
      then show ?thesis using apply_domains_val(2)[OF ok g q] A(1) by simp
    next
      case False
      then show ?thesis using apply_domains_val(2)[OF ok g q] A(1) by simp
    qed
  qed
  have ks: "keeps_givens g s" using s by (simp add: solution_def)
  have "keeps_givens g ?h"
    unfolding keeps_givens_iff using v ks[unfolded keeps_givens_iff] by metis
  moreover have "keeps_givens ?h s"
    unfolding keeps_givens_iff using v ks[unfolded keeps_givens_iff] by metis
  ultimately show ?thesis using d h9 s by (auto simp: solution_def)
qed

lemma full_solution_eq:
  assumes "grid9 h" "check_win h" "solution h s"
  shows "s = h"
proof (rule grid_eqI)
  show "grid9 s" using assms(3) by (simp add: solution_def)
  show "grid9 h" by fact
  fix p assume "p \<in> set cells"
  then show "val s p = val h p"
    using assms check_win_iff[OF assms(1)] by (simp add: solution_def keeps_givens_iff)
qed

lemma propagate_forces:
  assumes g: "grid9 g" and ord: "iterates order" and s: "solution g s"
    and p: "propagate order g = Some h" and w: "check_win h"
  shows "s = h"
proof -
  from propagation_keeps_solution[OF g ord s] obtain d where
    d: "revision_loop order (initial_domains g) (empty_cells g) = Some (Continue d [])"
    and h9: "grid9 (apply_domains d g)" and sol: "solution (apply_domains d g) s" by blast
  have "h = apply_domains d g" using p d by (simp add: propagate_def)
  then show ?thesis using full_solution_eq[OF h9 _ sol] w by simp
qed

lemma unique_solution_ac3:
  assumes g: "grid9 g" and ord: "iterates order" and s: "solution g s"
    and uniq: "\<forall>s'. solution g s' \<longrightarrow> s' = s"
  shows "ac3_solve order g = Some (Inr (True, s))"
proof -
  from propagation_keeps_solution[OF g ord s] obtain d where
    d: "revision_loop order (initial_domains g) (empty_cells g) = Some (Continue d [])"
    and h9: "grid9 (apply_domains d g)" and keep: "keeps_givens g (apply_domains d g)"
    and sol: "solution (apply_domains d g) s" by blast
  let ?h = "apply_domains d g"
  show ?thesis
  proof (cases "check_win ?h")
    case True
    then have "s = ?h" using full_solution_eq[OF h9 _ sol] by simp
    then show ?thesis using d True by (simp add: ac3_solve_def)
  next
    case False
    obtain g' where b: "backtracking_solve ?h = Some (True, g')" and sg: "solution ?h g'"
      using backtracking_solve_finds_solution[OF h9 sol] by blast
    have "keeps_givens g g'" using keep sg keeps_givens_trans by (auto simp: solution_def)
    then have "solution g g'" using sg by (simp add: solution_def)
    then have "g' = s" using uniq by blast
    then show ?thesis using d False b by (simp add: ac3_solve_def)
  qed
qed

lemma unique_solution_backtracking:
  assumes g: "grid9 g" and s: "solution g s" and uniq: "\<forall>s'. solution g s' \<longrightarrow> s' = s"
  shows "backtracking_solve g = Some (True, s)"
  using backtracking_solve_finds_solution[OF g s] uniq by auto

section \<open>Facts about loading a puzzle\<close>

text \<open>An unknown difficulty, or an index at or beyond the end of the list, changes nothing.\<close>

lemma load_puzzle_unknown_difficulty:
  "puzzles s difficulty = None \<Longrightarrow> load_puzzle s difficulty index = Inr s"
  by (simp add: load_puzzle_def)

lemma load_puzzle_beyond_end:
  "puzzles s difficulty = Some stored \<Longrightarrow> int (length stored) \<le> index \<Longrightarrow>
   load_puzzle s difficulty index = Inr s"
  by (simp add: load_puzzle_def)

text \<open>An index from 0 up to the end binds the working board to the stored object.\<close>

lemma load_puzzle_in_range:
  assumes "puzzles s difficulty = Some stored" and "0 \<le> index" and "index < int (length stored)"
  shows "\<exists>s'. load_puzzle s difficulty index = Inr s' \<and> puzzle s' = stored ! nat index
           \<and> puzzles s' = puzzles s \<and> original_puzzle s' = next_free s
           \<and> heap s' (next_free s) = heap s (stored ! nat index)"
  using assms by (simp add: load_puzzle_def py_index_def)

section \<open>Claims about the backtracking search\<close>

text \<open>
  C2. On a 9x9 board of digits 0..9 whose non-zero givens repeat in no row, column or
  block, a call of \<open>backtracking_solve\<close> that returns \<open>True\<close> leaves a board in which
  every cell holds a value from 1 to 9 and no two cells of a row, a column or a block
  hold the same value (\<open>all_different\<close>); each row, column and block, read as a list, is
  free of repetitions (\<open>units_distinct\<close>).
\<close>

theorem backtracking_success_is_solution:
  assumes "grid9 g" and "in_range g" and "no_duplicates g"
    and "backtracking_solve g = Some (True, g')"
  shows "grid9 g' \<and> filled g' \<and> all_different g' \<and> units_distinct g'"
proof -
  have post: "bt_post g True g'" using assms(1,4) by (rule backtracking_solve_post)
  then have "no_duplicates g'" "\<forall>p\<in>set cells. val g' p \<noteq> 0" and g': "grid9 g'"
    using assms(3) by (simp_all add: bt_post_def)
  then have "all_different g'" using full_no_duplicates by blast
  then show ?thesis
    using g' all_different_units backtracking_success_filled[OF assms(1,2,4)] by blast
qed

theorem backtracking_success_is_solution_witness:
  "grid9 nearly_done \<and> in_range nearly_done \<and> no_duplicates nearly_done
   \<and> backtracking_solve nearly_done = Some (True, completed)
   \<and> grid9 completed \<and> filled completed \<and> all_different completed
   \<and> units_distinct completed"
proof -
  have a: "grid9 nearly_done" by code_simp
  have b: "in_range nearly_done" by code_simp
  have c: "no_duplicates nearly_done" by code_simp
  have d: "backtracking_solve nearly_done = Some (True, completed)" by code_simp
  from backtracking_success_is_solution[OF a b c d] a b c d show ?thesis by simp
qed

text \<open>
  C3. When \<open>backtracking_solve\<close> returns \<open>False\<close> on a 9x9 board, the board it leaves is
  the board it was given: every cell written during the search is back at 0.
\<close>

theorem backtracking_failure_restores_grid:
  assumes "grid9 g" and "backtracking_solve g = Some (False, g')"
  shows "g' = g"
  using backtracking_solve_post[OF assms] by (simp add: bt_post_def)

theorem backtracking_failure_restores_grid_witness:
  "grid9 dead_end \<and> backtracking_solve dead_end = Some (False, dead_end)"
proof -
  have a: "grid9 dead_end" by code_simp
  have b: "backtracking_solve dead_end = Some (False, dead_end)" by code_simp
  from backtracking_failure_restores_grid[OF a b] a b show ?thesis by simp
qed

text \<open>
  C10. On a 9x9 board \<open>backtracking_solve\<close> returns, with either flag, and every cell
  that held a non-zero value before the call holds the same value after it; the cell
  that \<open>find_empty_cell\<close> returns holds 0.
\<close>

theorem backtracking_keeps_givens:
  assumes "grid9 g"
  shows "(\<exists>b g'. backtracking_solve g = Some (b, g') \<and> keeps_givens g g')
         \<and> (find_empty_cell g = Some (row, col) \<longrightarrow> g ! row ! col = 0)"
proof -
  obtain b g' where res: "backtracking_solve g = Some (b, g')"
    using backtracking_solve_total[OF assms] by blast
  have post: "bt_post g b g'" using assms res by (rule backtracking_solve_post)
  have "keeps_givens g g'"
  proof (cases b)
    case True
    then show ?thesis using post by (simp add: bt_post_def)
  next
    case False
    then have "g' = g" using post by (simp add: bt_post_def)
    then show ?thesis by (simp add: keeps_givens_iff)
  qed
  moreover have "find_empty_cell g = Some (row, col) \<longrightarrow> g ! row ! col = 0"
    using find_empty_cell_Some[of g row col] by (simp add: val_def)
  ultimately show ?thesis using res by blast
qed

theorem backtracking_keeps_givens_witness:
  "grid9 nearly_done
   \<and> (\<exists>b g'. backtracking_solve nearly_done = Some (b, g') \<and> keeps_givens nearly_done g')
   \<and> find_empty_cell nearly_done = Some (7, 6) \<and> nearly_done ! 7 ! 6 = 0"
proof -
  have a: "grid9 nearly_done" by code_simp
  have b: "find_empty_cell nearly_done = Some (7, 6)" by code_simp
  from backtracking_keeps_givens[OF a, of 7 6] a b show ?thesis by simp
qed

section \<open>Claims about arc consistency\<close>

text \<open>
  C1. The claim is that \<open>ac3_solve\<close> returns \<open>False\<close> as soon as a revision empties the
  domain of a neighbour. The test after a revision reads the domain of the dequeued
  cell, which has exactly one element whenever the revision removed something, so it
  never fires. On the board \<open>stuck\<close> the cells (0, 8) and (4, 8) both start with the
  domain \<open>{1}\<close>; visiting the neighbours of (0, 8) empties the domain of (4, 8), the
  loop goes on and enqueues (4, 8), and \<open>ac3_solve\<close> returns \<open>True\<close> with (3, 7) and
  (4, 8) still empty. The run below iterates the neighbour sets row by row; by
  \<open>ac3_solve_always_true\<close> the flag is \<open>True\<close> for every iteration order.
\<close>

theorem ac3_solve_misses_empty_domain:
  "initial_domains stuck (0, 8) = Some {1} \<and> initial_domains stuck (4, 8) = Some {1}
   \<and> (4, 8) \<in> get_neighbors 0 8
   \<and> domains_of (visit_neighbors (initial_domains stuck) (0, 8) (row_major (0, 8)) [(3, 7), (4, 8)])
        (4, 8) = Some {}
   \<and> queue_of (visit_neighbors (initial_domains stuck) (0, 8) (row_major (0, 8)) [(3, 7), (4, 8)])
        = [(3, 7), (4, 8), (0, 7), (4, 8)]
   \<and> ac3_solve row_major stuck = Some (Inr (True, stuck_after))
   \<and> stuck_after ! 3 ! 7 = 0 \<and> stuck_after ! 4 ! 8 = 0"
  by code_simp

text \<open>
  C4. When the revision loop ends with an empty queue, \<open>ac3_solve\<close> returns \<open>True\<close>:
  with the board after the singleton domains are written when that board is full, and
  otherwise with the board the backtracking fallback leaves, whichever flag \<open>b\<close> the
  fallback returned.
\<close>

theorem ac3_solve_true_when_drained:
  assumes "grid9 board"
    and "revision_loop order (initial_domains board) (empty_cells board) = Some (Continue d q)"
  shows "\<exists>b g'. backtracking_solve (apply_domains d board) = Some (b, g')
           \<and> ac3_solve order board
               = Some (Inr (True, if check_win (apply_domains d board)
                                  then apply_domains d board else g'))"
  using assms by (rule ac3_solve_drained)

theorem ac3_solve_true_when_drained_witness:
  "grid9 stuck
   \<and> (\<exists>d q. revision_loop row_major (initial_domains stuck) (empty_cells stuck) = Some (Continue d q)
         \<and> backtracking_solve (apply_domains d stuck) = Some (False, stuck_after))
   \<and> ac3_solve row_major stuck = Some (Inr (True, stuck_after))
   \<and> \<not> check_win stuck_after"
proof -
  have a: "grid9 stuck" by code_simp
  have res: "ac3_solve row_major stuck = Some (Inr (True, stuck_after))" by code_simp
  have open_cells: "\<not> check_win stuck_after" by code_simp
  have g9: "grid9 stuck_after" by code_simp
  obtain d where d: "revision_loop row_major (initial_domains stuck) (empty_cells stuck) = Some (Continue d [])"
    using propagation_drains[OF iterates_row_major] by blast
  from ac3_solve_true_when_drained[OF a d] obtain flag g' where
    f: "backtracking_solve (apply_domains d stuck) = Some (flag, g')"
    and r: "ac3_solve row_major stuck
              = Some (Inr (True, if check_win (apply_domains d stuck) then apply_domains d stuck else g'))"
    by blast
  have "stuck_after = (if check_win (apply_domains d stuck) then apply_domains d stuck else g')"
    using res r by simp
  then have g': "g' = stuck_after" using open_cells by (auto split: if_splits)
  have "\<not> flag"
  proof
    assume flag
    with backtracking_solve_post[OF apply_domains_grid9[OF a] f]
    have "\<forall>p\<in>set cells. val g' p \<noteq> 0" by (simp add: bt_post_def)
    then show False using open_cells g' check_win_iff[OF g9] by simp
  qed
  then show ?thesis using a d f g' res open_cells by auto
qed

text \<open>
  C8. On every 9x9 board, for every order in which the neighbour sets are iterated,
  the revision loop ends, and it ends with an empty queue. A revision that reports a
  change, the only ones after which a cell is enqueued, has replaced the domain of the
  neighbour by a proper subset; the domains are finite (\<open>total_size_shrinks\<close>), so the
  sum of the domain sizes plus the length of the queue falls with every dequeue
  (\<open>visit_neighbors_inv\<close>).
\<close>

theorem revision_loop_terminates:
  assumes "grid9 board" and "iterates order"
  shows "(\<exists>d. revision_loop order (initial_domains board) (empty_cells board) = Some (Continue d []))
         \<and> (revise d0 xi xj = Inr (True, d1) \<longrightarrow>
              (\<exists>A B. d0 xi = Some A \<and> d0 xj = Some B \<and> d1 = d0(xj \<mapsto> B - A) \<and> B - A \<subset> B))"
  using propagation_drains[OF assms(2)] revise_removes[of d0 xi xj d1] by blast

theorem revision_loop_terminates_witness:
  "grid9 dead_end \<and> iterates row_major
   \<and> (\<exists>d. revision_loop row_major (initial_domains dead_end) (empty_cells dead_end)
             = Some (Continue d []))"
proof -
  have a: "grid9 dead_end" by code_simp
  have b: "iterates row_major" by (rule iterates_row_major)
  from revision_loop_terminates[OF a b] a b show ?thesis by blast
qed

text \<open>
  C9. For a cell of the board, every member of \<open>get_neighbors\<close> lies on the board and
  is a key of the initial domains; and \<open>ac3_solve\<close> raises nothing, in particular not
  the \<open>AssertionError\<close> of the revision loop.
\<close>

theorem neighbors_are_keys:
  assumes "grid9 board" and "iterates order" and "row \<le> 8" and "col \<le> 8"
  shows "(\<forall>n\<in>get_neighbors row col.
            fst n \<le> 8 \<and> snd n \<le> 8 \<and> n \<in> dom (initial_domains board))
         \<and> (\<forall>e. ac3_solve order board \<noteq> Some (Inl e))"
proof -
  have rc: "(row, col) \<in> set cells" using assms(3,4) by (simp add: set_cells)
  have "fst n \<le> 8 \<and> snd n \<le> 8 \<and> n \<in> dom (initial_domains board)"
    if "n \<in> get_neighbors row col" for n
  proof -
    have n: "n \<in> set cells" using neighbor_facts(1)[OF rc] that by simp
    then show ?thesis using initial_domains_cell[OF n, of board] by (auto simp: set_cells)
  qed
  moreover have "\<forall>e. ac3_solve order board \<noteq> Some (Inl e)"
    using ac3_solve_always_true[OF assms(1,2)] by auto
  ultimately show ?thesis by blast
qed

theorem neighbors_are_keys_witness:
  "grid9 stuck \<and> iterates row_major \<and> (4::nat) \<le> 8 \<and> (8::nat) \<le> 8
   \<and> card (get_neighbors 4 8) = 20
   \<and> get_neighbors 4 8 \<subseteq> {n. fst n \<le> 8 \<and> snd n \<le> 8} \<inter> dom (initial_domains stuck)
   \<and> (\<forall>e. ac3_solve row_major stuck \<noteq> Some (Inl e))"
proof -
  have a: "grid9 stuck" by code_simp
  have b: "iterates row_major" by (rule iterates_row_major)
  have c: "card (get_neighbors 4 8) = 20" by code_simp
  from neighbors_are_keys[OF a b, of 4 8] a b c show ?thesis by auto
qed

section \<open>Both solvers on a puzzle with one solution\<close>

text \<open>
  C5. When a 9x9 board has exactly one solution \<open>s\<close>, \<open>backtracking_solve\<close> returns
  \<open>True\<close> and leaves \<open>s\<close>, and \<open>ac3_solve\<close>, for every order in which the neighbour
  sets are iterated, returns \<open>True\<close> and leaves \<open>s\<close> as well.
\<close>

theorem unique_solution_same_grid:
  assumes "grid9 g" and "iterates order"
    and "solution g s" and "\<forall>s'. solution g s' \<longrightarrow> s' = s"
  shows "backtracking_solve g = Some (True, s) \<and> ac3_solve order g = Some (Inr (True, s))"
  using unique_solution_backtracking[OF assms(1,3,4)] unique_solution_ac3[OF assms] by simp

theorem unique_solution_same_grid_witness:
  "grid9 nearly_done \<and> iterates row_major \<and> solution nearly_done completed
   \<and> \<not> (\<exists>s'. solution nearly_done s' \<and> s' \<noteq> completed)
   \<and> backtracking_solve nearly_done = Some (True, completed)
   \<and> ac3_solve row_major nearly_done = Some (Inr (True, completed))"
proof -
  have a: "grid9 nearly_done" by code_simp
  have b: "iterates row_major" by (rule iterates_row_major)
  have c: "solution nearly_done completed" by code_simp
  have p: "propagate row_major nearly_done = Some completed" by code_simp
  have w: "check_win completed" by code_simp
  have d: "\<forall>s'. solution nearly_done s' \<longrightarrow> s' = completed"
    using propagate_forces[OF a b _ p w] by blast
  from unique_solution_same_grid[OF a b c d] a b c d show ?thesis by blast
qed

section \<open>Claims about loading a puzzle\<close>

text \<open>
  C6. The claim is that the stored puzzle is untouched by later changes of the working
  board. In the code the working board is the stored object: after loading puzzle 0 of
  ''Easy'' and solving, the stored entry of ''Easy'' at index 0 is the solved board, no
  longer the board that was stored at load time.
\<close>

theorem load_puzzle_shares_stored_puzzle:
  "(case load_puzzle shelf ''Easy'' 0 of
      Inl e \<Rightarrow> False
    | Inr s \<Rightarrow>
        puzzles s ''Easy'' = Some [0] \<and> puzzle s = 0 \<and> heap s 0 = nearly_done
        \<and> heap s (original_puzzle s) = nearly_done
        \<and> (case game_backtracking_solve s of
              None \<Rightarrow> False
            | Some (solved, s') \<Rightarrow>
                solved \<and> puzzles s' ''Easy'' = Some [0] \<and> heap s' 0 = completed
                \<and> heap s' 0 \<noteq> nearly_done \<and> heap s' (original_puzzle s') = nearly_done))"
  by code_simp

text \<open>
  C7. The claim is that an index outside the stored list, negative ones included, leaves
  the game as it is. The guard of \<open>load_puzzle\<close> only bounds the index from above: with
  one stored puzzle, index -1 loads that puzzle over the working board, and index -2
  raises \<open>IndexError\<close>.
\<close>

theorem load_puzzle_negative_index:
  "(case load_puzzle shelf ''Easy'' (- 1) of
      Inl e \<Rightarrow> False
    | Inr s \<Rightarrow>
        heap shelf (puzzle shelf) = empty_board \<and> heap s (puzzle s) = nearly_done
        \<and> heap s (puzzle s) \<noteq> heap shelf (puzzle shelf))
   \<and> (case load_puzzle shelf ''Easy'' (- 2) of Inl e \<Rightarrow> e = IndexError | Inr s \<Rightarrow> False)"
  by code_simp

end
